theory Spec2Isabelle
  imports Main
begin

unbundle bit_operations_syntax

section \<open>Reentrancy comparators (w6/thread\_recitation.c, w3/thread\_demo.c)\<close>

text \<open>
  Memory is byte addressed. A C string argument is given by the bytes its pointer refers
  to; a terminating NUL is taken to follow them, and a NUL among them ends the string
  earlier, as \<open>strlen\<close> sees it. A null pointer is \<open>None\<close>. Undefined behaviour of the C
  program (dereferencing the null pointer, reading past the end of the string's array) is
  an explicit outcome that keeps the memory as it was at that point.
\<close>

type_synonym mem = "nat \<Rightarrow> char"

datatype fault = NullDeref | OutOfBounds

datatype 'r outcome = Returned 'r mem | Crashed fault mem

definition NUL :: char where
  "NUL = CHR 0x00"

text \<open>\<open>SIZE_MAX\<close> of a 64-bit \<open>size_t\<close>; \<open>size_pred c\<close> is \<open>c - 1\<close> in \<open>size_t\<close>
  arithmetic, with the wrap-around at zero written out.\<close>

definition SIZE_MAX :: nat where
  "SIZE_MAX = 2 ^ 64 - 1"

definition size_pred :: "nat \<Rightarrow> nat" where
  "size_pred c = (if c = 0 then SIZE_MAX else c - 1)"

text \<open>\<open>toupper\<close> of the C library in the "C" locale (the programs never call
  \<open>setlocale\<close>), on an \<open>unsigned char\<close> value and cast back to \<open>char\<close>.\<close>

definition toupper_c :: "char \<Rightarrow> char" where
  "toupper_c c =
     (let n = (of_char c :: nat) in if 97 \<le> n \<and> n \<le> 122 then char_of (n - 32) else c)"

definition strlen :: "string \<Rightarrow> nat" where
  "strlen s = length (takeWhile (\<lambda>c. c \<noteq> NUL) s)"

text \<open>The read \<open>s[i]\<close>: inside the bytes, the terminator right after them, or out of
  bounds.\<close>

definition str_at :: "string \<Rightarrow> nat \<Rightarrow> char option" where
  "str_at s i = (if i < length s then Some (s ! i) else if i = length s then Some NUL else None)"

text \<open>\<open>busy_spin(n)\<close>: \<open>for (volatile int i = 0; i < n; ++i) {}\<close>. It touches its own
  local only; the value is the number of rounds it has spun.\<close>

function spin_loop :: "nat \<Rightarrow> nat \<Rightarrow> nat" where
  "spin_loop i n = (if i < n then spin_loop (i + 1) n else i)"
  by pat_completeness auto
termination
  by (relation "measure (\<lambda>(i, n). n - i)") auto

declare spin_loop.simps [simp del]

definition busy_spin :: "nat \<Rightarrow> nat" where
  "busy_spin n = spin_loop 0 n"

text \<open>The copy loop of the two caller-buffer formatters:
  \<open>for (size_t i = 0; i < n; i++) out[i] = (char)toupper((unsigned char)s[i]);\<close>\<close>

function upper_loop :: "string \<Rightarrow> nat \<Rightarrow> nat \<Rightarrow> nat \<Rightarrow> mem \<Rightarrow> unit outcome" where
  "upper_loop s out i n m =
     (if i < n then
        (case str_at s i of
           None \<Rightarrow> Crashed OutOfBounds m
         | Some c \<Rightarrow> upper_loop s out (i + 1) n (m(out + i := toupper_c c)))
      else Returned () m)"
  by pat_completeness auto
termination
  by (relation "measure (\<lambda>(s, out, i, n, m). n - i)") auto

declare upper_loop.simps [simp del]

text \<open>The copy loop of the two static-buffer formatters, which also spins on every
  eighth character: \<open>if ((i & 7) == 0) busy_spin(200);\<close>\<close>

function upper_loop_spin :: "string \<Rightarrow> nat \<Rightarrow> nat \<Rightarrow> nat \<Rightarrow> mem \<Rightarrow> unit outcome" where
  "upper_loop_spin s buf i n m =
     (if i < n then
        (case str_at s i of
           None \<Rightarrow> Crashed OutOfBounds m
         | Some c \<Rightarrow>
             let m' = m(buf + i := toupper_c c);
                 spun = (if i AND 7 = 0 then busy_spin 200 else 0)
             in upper_loop_spin s buf (i + 1) n m')
      else Returned () m)"
  by pat_completeness auto
termination
  by (relation "measure (\<lambda>(s, buf, i, n, m). n - i)") auto

declare upper_loop_spin.simps [simp del]

text \<open>w6 \<open>upper_reentrant(s, out, outcap)\<close>: returns at once on a zero capacity, before
  it looks at \<open>s\<close>.\<close>

definition upper_reentrant :: "string option \<Rightarrow> nat \<Rightarrow> nat \<Rightarrow> mem \<Rightarrow> unit outcome" where
  "upper_reentrant s out outcap m =
     (if outcap = 0 then Returned () m
      else case s of
        None \<Rightarrow> Crashed NullDeref m
      | Some cs \<Rightarrow>
          let n = strlen cs;
              n = (if n \<ge> outcap then outcap - 1 else n)
          in case upper_loop cs out 0 n m of
               Crashed f m' \<Rightarrow> Crashed f m'
             | Returned u m' \<Rightarrow> Returned () (m'(out + n := NUL)))"

text \<open>w3 \<open>reentrant_upper(s, out, outcap)\<close>: the same without the capacity guard, so
  \<open>outcap - 1\<close> is computed in \<open>size_t\<close> also when \<open>outcap\<close> is zero.\<close>

definition reentrant_upper :: "string option \<Rightarrow> nat \<Rightarrow> nat \<Rightarrow> mem \<Rightarrow> unit outcome" where
  "reentrant_upper s out outcap m =
     (case s of
        None \<Rightarrow> Crashed NullDeref m
      | Some cs \<Rightarrow>
          let n = strlen cs;
              n = (if n \<ge> outcap then size_pred outcap else n)
          in case upper_loop cs out 0 n m of
               Crashed f m' \<Rightarrow> Crashed f m'
             | Returned u m' \<Rightarrow> Returned () (m'(out + n := NUL)))"

text \<open>w6 \<open>upper_not_reentrant(s)\<close> and w3 \<open>not_reentrant_upper(s)\<close>: the function's
  \<open>static char buf[64]\<close> lives at one fixed address \<open>buf\<close>, which is what is returned.\<close>

definition upper_not_reentrant :: "nat \<Rightarrow> string option \<Rightarrow> mem \<Rightarrow> nat outcome" where
  "upper_not_reentrant buf s m =
     (case s of
        None \<Rightarrow> Crashed NullDeref m
      | Some cs \<Rightarrow>
          let n = strlen cs;
              n = (if n \<ge> 64 then 64 - 1 else n)
          in case upper_loop_spin cs buf 0 n m of
               Crashed f m' \<Rightarrow> Crashed f m'
             | Returned u m' \<Rightarrow> Returned buf (m'(buf + n := NUL)))"

definition not_reentrant_upper :: "nat \<Rightarrow> string option \<Rightarrow> mem \<Rightarrow> nat outcome" where
  "not_reentrant_upper buf s m =
     (case s of
        None \<Rightarrow> Crashed NullDeref m
      | Some cs \<Rightarrow>
          let n = strlen cs;
              n = (if n \<ge> 64 then 64 - 1 else n)
          in case upper_loop_spin cs buf 0 n m of
               Crashed f m' \<Rightarrow> Crashed f m'
             | Returned u m' \<Rightarrow> Returned buf (m'(buf + n := NUL)))"

text \<open>What a reader of the C string at address \<open>p\<close> sees, looking at no more than
  \<open>cap\<close> bytes: the bytes before the first NUL.\<close>

definition cstr_at :: "mem \<Rightarrow> nat \<Rightarrow> nat \<Rightarrow> string" where
  "cstr_at m p cap = takeWhile (\<lambda>c. c \<noteq> NUL) (map (\<lambda>i. m (p + i)) [0..<cap])"

text \<open>The upper-cased copy of the string \<open>s\<close>, cut to what fits a buffer of \<open>cap\<close> bytes
  with its terminator.\<close>

definition upper_trunc :: "string \<Rightarrow> nat \<Rightarrow> string" where
  "upper_trunc s cap = map toupper_c (take (cap - 1) (takeWhile (\<lambda>c. c \<noteq> NUL) s))"

text \<open>The memory after a formatter has stored \<open>n\<close> upper-cased characters of \<open>s\<close> and the
  terminator at \<open>out\<close>.\<close>

definition written :: "string \<Rightarrow> nat \<Rightarrow> nat \<Rightarrow> mem \<Rightarrow> mem" where
  "written s out n m =
     (\<lambda>a. if out \<le> a \<and> a < out + n then toupper_c (s ! (a - out))
          else if a = out + n then NUL else m a)"



section \<open>Threads, mutexes and condition variables\<close>

text \<open>
  A run of the worker threads is an interleaving of their steps: every read and every write
  of shared memory, and every call of a pthread primitive, is one step of the thread that
  makes it. A step of a thread has one of three results: the thread cannot move now (it
  waits for a mutex or sleeps on a condition variable, or it has returned), the step would
  be undefined behaviour in C, or the thread moves to its next state.
\<close>

datatype 'a step = NoStep | Undefined | Step 'a

text \<open>\<open>pthread_mutex_lock\<close> and \<open>pthread_mutex_unlock\<close> on a default mutex, as POSIX
  describes them: the mutex is its owner, if any; locking waits while there is one;
  unlocking a mutex one does not own is undefined.\<close>

definition mutex_lock :: "nat \<Rightarrow> nat option \<Rightarrow> nat option step" where
  "mutex_lock t mtx = (if mtx = None then Step (Some t) else NoStep)"

definition mutex_unlock :: "nat \<Rightarrow> nat option \<Rightarrow> nat option step" where
  "mutex_unlock t mtx = (if mtx = Some t then Step None else Undefined)"

text \<open>\<open>pthread_cond_signal\<close> on the set of threads blocked on the condition variable:
  it unblocks one of them if there is any (the scheduler's choice \<open>ch\<close> says which).\<close>

definition cond_signal :: "nat \<Rightarrow> nat set \<Rightarrow> nat set step" where
  "cond_signal ch waiters =
     (if waiters = {} then Step waiters
      else if ch \<in> waiters then Step (waiters - {ch}) else NoStep)"

section \<open>The counting semaphore \<open>semc_t\<close> (w6/thread\_recitation.c)\<close>

text \<open>\<open>typedef struct { int count; pthread_mutex_t m; pthread_cond_t cv; } semc_t;\<close>
  The mutex is modelled by its owner and the condition variable by the set of threads
  blocked on it. \<open>count\<close> is a C \<open>int\<close>: stepping outside \<open>[INT_MIN, INT_MAX]\<close> is
  undefined.\<close>

record semc =
  count :: int
  m :: "nat option"
  cv :: "nat set"

definition INT_MAX :: int where
  "INT_MAX = 2147483647"

definition INT_MIN :: int where
  "INT_MIN = - 2147483648"

definition semc_init :: "int \<Rightarrow> semc" where
  "semc_init initial = \<lparr>count = initial, m = None, cv = {}\<rparr>"

text \<open>The program points of
  \<open>semc_wait: lock(m); while (count == 0) cond_wait(cv, m); count--; unlock(m);\<close>
  \<open>WTest\<close> reads \<open>count\<close> for the loop test; \<open>WCondWait\<close> enters \<open>pthread_cond_wait\<close>, which
  releases the mutex and blocks in one atomic step; \<open>WSleep\<close> is the thread blocked in it;
  \<open>WReacq\<close> takes the mutex again before \<open>pthread_cond_wait\<close> returns; \<open>WLoad\<close> and
  \<open>WStore r\<close> are the read and the write of \<open>count--\<close>, \<open>r\<close> being the value read.\<close>

datatype wait_pc = WLock | WTest | WCondWait | WSleep | WReacq | WLoad | WStore int | WUnlock

text \<open>The program points of \<open>semc_post: lock(m); count++; cond_signal(cv); unlock(m);\<close>\<close>

datatype post_pc = PLock | PLoad | PStore int | PSignal | PUnlock

text \<open>One step of thread \<open>t\<close> inside \<open>semc_wait\<close>. The next program point \<open>None\<close> means
  that the function has returned. A thread at \<open>WSleep\<close> moves on only once it is no longer
  among the blocked threads of \<open>cv\<close>.\<close>

fun semc_wait_step :: "nat \<Rightarrow> wait_pc \<Rightarrow> semc \<Rightarrow> (wait_pc option \<times> semc) step" where
  "semc_wait_step t WLock s =
     map_step (\<lambda>mt. (Some WTest, s\<lparr>m := mt\<rparr>)) (mutex_lock t (m s))"
| "semc_wait_step t WTest s =
     (if count s = 0 then Step (Some WCondWait, s) else Step (Some WLoad, s))"
| "semc_wait_step t WCondWait s =
     map_step (\<lambda>mt. (Some WSleep, s\<lparr>m := mt, cv := insert t (cv s)\<rparr>)) (mutex_unlock t (m s))"
| "semc_wait_step t WSleep s =
     (if t \<in> cv s then NoStep else Step (Some WReacq, s))"
| "semc_wait_step t WReacq s =
     map_step (\<lambda>mt. (Some WTest, s\<lparr>m := mt\<rparr>)) (mutex_lock t (m s))"
| "semc_wait_step t WLoad s = Step (Some (WStore (count s)), s)"
| "semc_wait_step t (WStore r) s =
     (if r = INT_MIN then Undefined else Step (Some WUnlock, s\<lparr>count := r - 1\<rparr>))"
| "semc_wait_step t WUnlock s =
     map_step (\<lambda>mt. (None, s\<lparr>m := mt\<rparr>)) (mutex_unlock t (m s))"

fun semc_post_step :: "nat \<Rightarrow> nat \<Rightarrow> post_pc \<Rightarrow> semc \<Rightarrow> (post_pc option \<times> semc) step" where
  "semc_post_step ch t PLock s =
     map_step (\<lambda>mt. (Some PLoad, s\<lparr>m := mt\<rparr>)) (mutex_lock t (m s))"
| "semc_post_step ch t PLoad s = Step (Some (PStore (count s)), s)"
| "semc_post_step ch t (PStore r) s =
     (if r = INT_MAX then Undefined else Step (Some PSignal, s\<lparr>count := r + 1\<rparr>))"
| "semc_post_step ch t PSignal s =
     map_step (\<lambda>w. (Some PUnlock, s\<lparr>cv := w\<rparr>)) (cond_signal ch (cv s))"
| "semc_post_step ch t PUnlock s =
     map_step (\<lambda>mt. (None, s\<lparr>m := mt\<rparr>)) (mutex_unlock t (m s))"

section \<open>Worker threads and their interleavings\<close>

text \<open>
  The code of a worker outside the semaphore is a function \<open>prog\<close> from the thread's
  number, its local state and the shared variables to what it does next: it has returned,
  it waits for a mutex, it would be undefined, it makes a step of its own, or it calls
  \<open>semc_wait\<close> or \<open>semc_post\<close> (giving the local state to go on with after the call).
\<close>

datatype ('l, 'u) action =
  Finished | Waiting | Fault | Local 'l 'u | CallWait 'l | CallPost 'l

datatype 'l frame = User 'l | InWait wait_pc 'l | InPost post_pc 'l

definition thread_step ::
  "(nat \<Rightarrow> 'l \<Rightarrow> 'u \<Rightarrow> ('l, 'u) action) \<Rightarrow> nat \<Rightarrow> nat \<Rightarrow> 'l frame \<Rightarrow> 'u \<Rightarrow> semc
     \<Rightarrow> ('l frame \<times> 'u \<times> semc) step" where
  "thread_step prog t ch f u s =
     (case f of
        User l \<Rightarrow>
          (case prog t l u of
             Finished \<Rightarrow> NoStep
           | Waiting \<Rightarrow> NoStep
           | Fault \<Rightarrow> Undefined
           | Local l' u' \<Rightarrow> Step (User l', u', s)
           | CallWait l' \<Rightarrow> Step (InWait WLock l', u, s)
           | CallPost l' \<Rightarrow> Step (InPost PLock l', u, s))
      | InWait p l \<Rightarrow>
          map_step (\<lambda>(r, s'). (case r of None \<Rightarrow> User l | Some p' \<Rightarrow> InWait p' l, u, s'))
            (semc_wait_step t p s)
      | InPost p l \<Rightarrow>
          map_step (\<lambda>(r, s'). (case r of None \<Rightarrow> User l | Some p' \<Rightarrow> InPost p' l, u, s'))
            (semc_post_step ch t p s))"

text \<open>What the scheduler and the platform may do next: run one step of thread \<open>t\<close> (with
  the choice \<open>ch\<close> of the thread to unblock, should the step be a \<open>pthread_cond_signal\<close>), or
  wake the sleeping thread \<open>t\<close> spuriously, as POSIX allows \<open>pthread_cond_wait\<close> to do.\<close>

datatype event = Run nat nat | Wake nat

fun asleep :: "'l frame \<Rightarrow> bool" where
  "asleep (InWait p l) = (p = WSleep)"
| "asleep _ = False"

fun sys_step ::
  "(nat \<Rightarrow> 'l \<Rightarrow> 'u \<Rightarrow> ('l, 'u) action) \<Rightarrow> event \<Rightarrow> 'l frame list \<times> 'u \<times> semc
     \<Rightarrow> ('l frame list \<times> 'u \<times> semc) step" where
  "sys_step prog (Run t ch) (ls, u, s) =
     (if t < length ls
      then map_step (\<lambda>(f', u', s'). (ls[t := f'], u', s')) (thread_step prog t ch (ls ! t) u s)
      else NoStep)"
| "sys_step prog (Wake t) (ls, u, s) =
     (if t < length ls \<and> asleep (ls ! t) \<and> t \<in> cv s
      then Step (ls, u, s\<lparr>cv := cv s - {t}\<rparr>) else NoStep)"

fun run ::
  "(nat \<Rightarrow> 'l \<Rightarrow> 'u \<Rightarrow> ('l, 'u) action) \<Rightarrow> event list \<Rightarrow> 'l frame list \<times> 'u \<times> semc
     \<Rightarrow> ('l frame list \<times> 'u \<times> semc) step" where
  "run prog [] c = Step c"
| "run prog (e # es) c =
     (case sys_step prog e c of
        Step c' \<Rightarrow> run prog es c'
      | NoStep \<Rightarrow> NoStep
      | Undefined \<Rightarrow> Undefined)"

text \<open>The harness: \<open>W\<close> threads are created on the same worker function, each starting
  with the local state \<open>l0\<close>; the shared variables and the semaphore have been set before.\<close>

definition spawn :: "nat \<Rightarrow> 'l \<Rightarrow> 'u \<Rightarrow> semc \<Rightarrow> 'l frame list \<times> 'u \<times> semc" where
  "spawn W l0 u s = (replicate W (User l0), u, s)"

text \<open>A thread has been joined once its worker function has returned.\<close>

fun returned :: "(nat \<Rightarrow> 'l \<Rightarrow> 'u \<Rightarrow> ('l, 'u) action) \<Rightarrow> 'u \<Rightarrow> nat \<times> 'l frame \<Rightarrow> bool" where
  "returned prog u (t, User l) = (case prog t l u of Finished \<Rightarrow> True | _ \<Rightarrow> False)"
| "returned prog u (t, InWait p l) = False"
| "returned prog u (t, InPost p l) = False"

fun joined ::
  "(nat \<Rightarrow> 'l \<Rightarrow> 'u \<Rightarrow> ('l, 'u) action) \<Rightarrow> 'l frame list \<times> 'u \<times> semc \<Rightarrow> bool" where
  "joined prog (ls, u, s) = list_all (returned prog u) (enumerate 0 ls)"

text \<open>Turning the result of a pthread call in a worker's own code into its action.\<close>

fun after :: "'a step \<Rightarrow> ('a \<Rightarrow> ('l, 'u) action) \<Rightarrow> ('l, 'u) action" where
  "after NoStep f = Waiting"
| "after Undefined f = Fault"
| "after (Step x) f = f x"

section \<open>The counter workers\<close>

text \<open>The shared variables \<open>long counter\<close> and the mutex (\<open>g_lock\<close> in w6, \<open>lock\<close> in w3).
  \<open>counter\<close> never exceeds the number of increments made, \<open>W * K\<close>, which stays far
  below \<open>LONG_MAX\<close> for \<open>int\<close> constants \<open>W\<close> and \<open>K\<close>; it is modelled as an integer.
  A worker's locals are its loop index \<open>i\<close> and the value \<open>tmp\<close> it has read from
  the counter (the register of \<open>counter++\<close>, which is a load, an add and a store).\<close>

record shared =
  counter :: int
  g_lock :: "nat option"

record 'p wlocal =
  pc :: 'p
  i :: nat
  tmp :: int

text \<open>w6 \<open>inc_with_lock\<close>:
  \<open>for (int i = 0; i < ITERATIONS; i++) { lock(&g_lock); counter++; unlock(&g_lock); }\<close>
  with \<open>K\<close> for \<open>ITERATIONS\<close>.\<close>

datatype lock_pc = LTest | LLock | LLoad | LStore | LUnlock | LIncr | LReturn

definition inc_with_lock ::
  "nat \<Rightarrow> nat \<Rightarrow> lock_pc wlocal \<Rightarrow> shared \<Rightarrow> (lock_pc wlocal, shared) action" where
  "inc_with_lock K t l u =
     (case pc l of
        LTest \<Rightarrow> Local (l\<lparr>pc := (if i l < K then LLock else LReturn)\<rparr>) u
      | LLock \<Rightarrow> after (mutex_lock t (g_lock u)) (\<lambda>mt. Local (l\<lparr>pc := LLoad\<rparr>) (u\<lparr>g_lock := mt\<rparr>))
      | LLoad \<Rightarrow> Local (l\<lparr>pc := LStore, tmp := counter u\<rparr>) u
      | LStore \<Rightarrow> Local (l\<lparr>pc := LUnlock\<rparr>) (u\<lparr>counter := tmp l + 1\<rparr>)
      | LUnlock \<Rightarrow>
          after (mutex_unlock t (g_lock u)) (\<lambda>mt. Local (l\<lparr>pc := LIncr\<rparr>) (u\<lparr>g_lock := mt\<rparr>))
      | LIncr \<Rightarrow> Local (l\<lparr>pc := LTest, i := i l + 1\<rparr>) u
      | LReturn \<Rightarrow> Finished)"

text \<open>w3 \<open>increment_with_lock\<close> is the same loop on w3's \<open>counter\<close> and \<open>lock\<close> (the field
  \<open>g_lock\<close> stands for w3's \<open>lock\<close> here).\<close>

definition increment_with_lock ::
  "nat \<Rightarrow> nat \<Rightarrow> lock_pc wlocal \<Rightarrow> shared \<Rightarrow> (lock_pc wlocal, shared) action" where
  "increment_with_lock K t l u =
     (case pc l of
        LTest \<Rightarrow> Local (l\<lparr>pc := (if i l < K then LLock else LReturn)\<rparr>) u
      | LLock \<Rightarrow> after (mutex_lock t (g_lock u)) (\<lambda>mt. Local (l\<lparr>pc := LLoad\<rparr>) (u\<lparr>g_lock := mt\<rparr>))
      | LLoad \<Rightarrow> Local (l\<lparr>pc := LStore, tmp := counter u\<rparr>) u
      | LStore \<Rightarrow> Local (l\<lparr>pc := LUnlock\<rparr>) (u\<lparr>counter := tmp l + 1\<rparr>)
      | LUnlock \<Rightarrow>
          after (mutex_unlock t (g_lock u)) (\<lambda>mt. Local (l\<lparr>pc := LIncr\<rparr>) (u\<lparr>g_lock := mt\<rparr>))
      | LIncr \<Rightarrow> Local (l\<lparr>pc := LTest, i := i l + 1\<rparr>) u
      | LReturn \<Rightarrow> Finished)"

text \<open>w6 \<open>inc_with_sem_binary\<close>:
  \<open>for (...) { semc_wait(&sem_bin); counter++; semc_post(&sem_bin); }\<close>\<close>

datatype bin_pc = BTest | BWait | BLoad | BStore | BPost | BIncr | BReturn

definition inc_with_sem_binary ::
  "nat \<Rightarrow> nat \<Rightarrow> bin_pc wlocal \<Rightarrow> shared \<Rightarrow> (bin_pc wlocal, shared) action" where
  "inc_with_sem_binary K t l u =
     (case pc l of
        BTest \<Rightarrow> Local (l\<lparr>pc := (if i l < K then BWait else BReturn)\<rparr>) u
      | BWait \<Rightarrow> CallWait (l\<lparr>pc := BLoad\<rparr>)
      | BLoad \<Rightarrow> Local (l\<lparr>pc := BStore, tmp := counter u\<rparr>) u
      | BStore \<Rightarrow> Local (l\<lparr>pc := BPost\<rparr>) (u\<lparr>counter := tmp l + 1\<rparr>)
      | BPost \<Rightarrow> CallPost (l\<lparr>pc := BIncr\<rparr>)
      | BIncr \<Rightarrow> Local (l\<lparr>pc := BTest, i := i l + 1\<rparr>) u
      | BReturn \<Rightarrow> Finished)"

text \<open>w6 \<open>inc_with_sem_three\<close>:
  \<open>for (...) { semc_wait(&sem_three); long tmp = counter; busy_spin(30); counter = tmp + 1;
  semc_post(&sem_three); }\<close>\<close>

datatype three_pc = TTest | TWait | TLoad | TSpin | TStore | TPost | TIncr | TReturn

definition inc_with_sem_three ::
  "nat \<Rightarrow> nat \<Rightarrow> three_pc wlocal \<Rightarrow> shared \<Rightarrow> (three_pc wlocal, shared) action" where
  "inc_with_sem_three K t l u =
     (case pc l of
        TTest \<Rightarrow> Local (l\<lparr>pc := (if i l < K then TWait else TReturn)\<rparr>) u
      | TWait \<Rightarrow> CallWait (l\<lparr>pc := TLoad\<rparr>)
      | TLoad \<Rightarrow> Local (l\<lparr>pc := TSpin, tmp := counter u\<rparr>) u
      | TSpin \<Rightarrow> (let spun = busy_spin 30 in Local (l\<lparr>pc := TStore\<rparr>) u)
      | TStore \<Rightarrow> Local (l\<lparr>pc := TPost\<rparr>) (u\<lparr>counter := tmp l + 1\<rparr>)
      | TPost \<Rightarrow> CallPost (l\<lparr>pc := TIncr\<rparr>)
      | TIncr \<Rightarrow> Local (l\<lparr>pc := TTest, i := i l + 1\<rparr>) u
      | TReturn \<Rightarrow> Finished)"

text \<open>The harness of each counter scenario: \<open>counter = 0\<close>, the mutex unlocked, the
  semaphore initialised with its permits, \<open>W\<close> threads created.\<close>

definition worker_start :: "'p \<Rightarrow> 'p wlocal" where
  "worker_start p = \<lparr>pc = p, i = 0, tmp = 0\<rparr>"

definition counter_scenario ::
  "nat \<Rightarrow> 'p \<Rightarrow> int \<Rightarrow> 'p wlocal frame list \<times> shared \<times> semc" where
  "counter_scenario W p permits =
     spawn W (worker_start p) \<lparr>counter = 0, g_lock = None\<rparr> (semc_init permits)"

section \<open>What holds of the semaphore in every interleaving\<close>

text \<open>The program points of \<open>semc_wait\<close> and \<open>semc_post\<close> at which the calling thread
  owns the semaphore's mutex.\<close>

fun wait_holds_m :: "wait_pc \<Rightarrow> bool" where
  "wait_holds_m WLock = False"
| "wait_holds_m WTest = True"
| "wait_holds_m WCondWait = True"
| "wait_holds_m WSleep = False"
| "wait_holds_m WReacq = False"
| "wait_holds_m WLoad = True"
| "wait_holds_m (WStore r) = True"
| "wait_holds_m WUnlock = True"

fun holds_m :: "'l frame \<Rightarrow> bool" where
  "holds_m (User l) = False"
| "holds_m (InWait p l) = wait_holds_m p"
| "holds_m (InPost p l) = (p \<noteq> PLock)"

text \<open>What a thread inside the semaphore knows of \<open>count\<close>: past the loop of \<open>semc_wait\<close>
  the count is not zero, and a value read for \<open>count--\<close> or \<open>count++\<close> is still the
  count.\<close>

fun reg_ok :: "'l frame \<Rightarrow> semc \<Rightarrow> bool" where
  "reg_ok (InWait WLoad l) s = (count s \<noteq> 0)"
| "reg_ok (InWait (WStore r) l) s = (r = count s \<and> count s \<noteq> 0)"
| "reg_ok (InPost (PStore r) l) s = (r = count s)"
| "reg_ok f s = True"

definition sem_inv :: "'l frame list \<times> 'u \<times> semc \<Rightarrow> bool" where
  "sem_inv c =
     (case c of (ls, u, s) \<Rightarrow>
        0 \<le> count s
        \<and> (\<forall>t<length ls. (holds_m (ls ! t) \<longleftrightarrow> m s = Some t) \<and> reg_ok (ls ! t) s)
        \<and> (\<forall>t\<in>cv s. t < length ls \<and> asleep (ls ! t)))"

text \<open>The local state a thread is in, or goes on with after the call it is in.\<close>

fun local_of :: "'l frame \<Rightarrow> 'l" where
  "local_of (User l) = l"
| "local_of (InWait p l) = l"
| "local_of (InPost p l) = l"

text \<open>A property of local states that no step of the worker's code destroys.\<close>

definition local_pres ::
  "(nat \<Rightarrow> 'l \<Rightarrow> 'u \<Rightarrow> ('l, 'u) action) \<Rightarrow> ('l \<Rightarrow> bool) \<Rightarrow> bool" where
  "local_pres prog ok =
     (\<forall>t l u. ok l \<longrightarrow>
        (case prog t l u of
           Local l' u' \<Rightarrow> ok l'
         | CallWait l' \<Rightarrow> ok l'
         | CallPost l' \<Rightarrow> ok l'
         | _ \<Rightarrow> True))"

text \<open>Permits. A thread holds a permit from the store of \<open>count--\<close> in \<open>semc_wait\<close> to the
  store of \<open>count++\<close> in \<open>semc_post\<close>; \<open>perm\<close> says at which points of the worker's own code
  that is. A worker uses the semaphore in pairs when it calls \<open>semc_wait\<close> only without a
  permit and \<open>semc_post\<close> only with one.\<close>

fun has_permit :: "('l \<Rightarrow> bool) \<Rightarrow> 'l frame \<Rightarrow> bool" where
  "has_permit perm (User l) = perm l"
| "has_permit perm (InWait p l) = (p = WUnlock)"
| "has_permit perm (InPost p l) = (case p of PSignal \<Rightarrow> False | PUnlock \<Rightarrow> False | _ \<Rightarrow> True)"

definition permits_held :: "('l \<Rightarrow> bool) \<Rightarrow> 'l frame list \<Rightarrow> nat" where
  "permits_held perm ls = length (filter (has_permit perm) ls)"

definition paired ::
  "(nat \<Rightarrow> 'l \<Rightarrow> 'u \<Rightarrow> ('l, 'u) action) \<Rightarrow> ('l \<Rightarrow> bool) \<Rightarrow> bool" where
  "paired prog perm =
     (\<forall>t l u.
        (case prog t l u of
           Local l' u' \<Rightarrow> perm l' = perm l
         | CallWait l' \<Rightarrow> \<not> perm l \<and> perm l'
         | CallPost l' \<Rightarrow> perm l \<and> \<not> perm l'
         | _ \<Rightarrow> True))"

fun resume_ok :: "('l \<Rightarrow> bool) \<Rightarrow> 'l frame \<Rightarrow> bool" where
  "resume_ok perm (User l) = True"
| "resume_ok perm (InWait p l) = perm l"
| "resume_ok perm (InPost p l) = (\<not> perm l)"

definition permit_inv :: "int \<Rightarrow> ('l \<Rightarrow> bool) \<Rightarrow> 'l frame list \<times> 'u \<times> semc \<Rightarrow> bool" where
  "permit_inv N perm c =
     (case c of (ls, u, s) \<Rightarrow>
        count s + int (permits_held perm ls) = N \<and> list_all (resume_ok perm) ls)"

text \<open>
  The counter under a guard. \<open>pend\<close> marks the points of a worker between its read of the
  counter and its write-back, where \<open>tmp\<close> is the value it has read; \<open>contrib\<close> is the
  number of increments the worker has written so far. A worker treats the counter as a
  guarded increment when its only write to it is \<open>counter = tmp + 1\<close> at the end of such
  a stretch, and it calls the semaphore outside of it.
\<close>

definition guarded ::
  "(nat \<Rightarrow> 'p wlocal \<Rightarrow> shared \<Rightarrow> ('p wlocal, shared) action)
     \<Rightarrow> ('p wlocal \<Rightarrow> bool) \<Rightarrow> ('p wlocal \<Rightarrow> int) \<Rightarrow> bool" where
  "guarded prog pend contrib =
     (\<forall>t l u.
        (case prog t l u of
           Local l' u' \<Rightarrow>
             (if pend l \<and> \<not> pend l'
              then counter u' = tmp l + 1 \<and> contrib l' = contrib l + 1
              else counter u' = counter u \<and> contrib l' = contrib l
                \<and> (pend l' \<longrightarrow> tmp l' = (if pend l then tmp l else counter u)))
         | CallWait l' \<Rightarrow> \<not> pend l \<and> \<not> pend l' \<and> contrib l' = contrib l
         | CallPost l' \<Rightarrow> \<not> pend l \<and> \<not> pend l' \<and> contrib l' = contrib l
         | _ \<Rightarrow> True))"

fun pending :: "('l \<Rightarrow> bool) \<Rightarrow> 'l frame \<Rightarrow> bool" where
  "pending pend (User l) = pend l"
| "pending pend (InWait p l) = False"
| "pending pend (InPost p l) = False"

fun calm :: "('l \<Rightarrow> bool) \<Rightarrow> 'l frame \<Rightarrow> bool" where
  "calm pend (User l) = True"
| "calm pend (InWait p l) = (\<not> pend l)"
| "calm pend (InPost p l) = (\<not> pend l)"

definition exclusive :: "('l \<Rightarrow> bool) \<Rightarrow> 'l frame list \<Rightarrow> bool" where
  "exclusive pend ls =
     (\<forall>t<length ls. \<forall>t'<length ls. pending pend (ls ! t) \<and> pending pend (ls ! t') \<longrightarrow> t = t')"

definition counter_inv ::
  "('p wlocal \<Rightarrow> bool) \<Rightarrow> ('p wlocal \<Rightarrow> int) \<Rightarrow> 'p wlocal frame list \<times> shared \<times> semc \<Rightarrow> bool" where
  "counter_inv pend contrib c =
     (case c of (ls, u, s) \<Rightarrow>
        counter u = sum_list (map (\<lambda>f. contrib (local_of f)) ls)
        \<and> (\<forall>t<length ls. calm pend (ls ! t)
              \<and> (pending pend (ls ! t) \<longrightarrow> tmp (local_of (ls ! t)) = counter u)))"

text \<open>The points of the three guarded counter workers: where the worker holds the mutex
  or a permit, where it is between the read and the write of the counter, how many
  increments it has written, and what its loop index can be.\<close>

definition lock_held :: "lock_pc wlocal \<Rightarrow> bool" where
  "lock_held l = (pc l = LLoad \<or> pc l = LStore \<or> pc l = LUnlock)"

definition lock_pend :: "lock_pc wlocal \<Rightarrow> bool" where
  "lock_pend l = (pc l = LStore)"

definition lock_contrib :: "lock_pc wlocal \<Rightarrow> int" where
  "lock_contrib l = int (i l) + (if pc l = LUnlock \<or> pc l = LIncr then 1 else 0)"

definition lock_ok :: "nat \<Rightarrow> lock_pc wlocal \<Rightarrow> bool" where
  "lock_ok K l = (if pc l = LTest then i l \<le> K else if pc l = LReturn then i l = K else i l < K)"

definition lock_inv :: "lock_pc wlocal frame list \<times> shared \<times> semc \<Rightarrow> bool" where
  "lock_inv c =
     (case c of (ls, u, s) \<Rightarrow>
        \<forall>t<length ls. (case ls ! t of User l \<Rightarrow> lock_held l \<longleftrightarrow> g_lock u = Some t | _ \<Rightarrow> False))"

definition bin_perm :: "bin_pc wlocal \<Rightarrow> bool" where
  "bin_perm l = (pc l = BLoad \<or> pc l = BStore \<or> pc l = BPost)"

definition bin_pend :: "bin_pc wlocal \<Rightarrow> bool" where
  "bin_pend l = (pc l = BStore)"

definition bin_contrib :: "bin_pc wlocal \<Rightarrow> int" where
  "bin_contrib l = int (i l) + (if pc l = BPost \<or> pc l = BIncr then 1 else 0)"

definition bin_ok :: "nat \<Rightarrow> bin_pc wlocal \<Rightarrow> bool" where
  "bin_ok K l = (if pc l = BTest then i l \<le> K else if pc l = BReturn then i l = K else i l < K)"

definition three_perm :: "three_pc wlocal \<Rightarrow> bool" where
  "three_perm l = (pc l = TLoad \<or> pc l = TSpin \<or> pc l = TStore \<or> pc l = TPost)"

definition three_pend :: "three_pc wlocal \<Rightarrow> bool" where
  "three_pend l = (pc l = TSpin \<or> pc l = TStore)"

definition three_contrib :: "three_pc wlocal \<Rightarrow> int" where
  "three_contrib l = int (i l) + (if pc l = TPost \<or> pc l = TIncr then 1 else 0)"

definition three_ok :: "nat \<Rightarrow> three_pc wlocal \<Rightarrow> bool" where
  "three_ok K l = (if pc l = TTest then i l \<le> K else if pc l = TReturn then i l = K else i l < K)"

text \<open>The program points of \<open>semc_wait\<close> before the decrement: the thread is taking the
  mutex, testing the count, or in \<open>pthread_cond_wait\<close>.\<close>

fun waiting :: "wait_pc \<Rightarrow> bool" where
  "waiting WLock = True"
| "waiting WTest = True"
| "waiting WCondWait = True"
| "waiting WSleep = True"
| "waiting WReacq = True"
| "waiting WLoad = False"
| "waiting (WStore r) = False"
| "waiting WUnlock = False"

text \<open>Two workers of the three-permit scenario inside the guarded section at once: both
  read the counter before either writes it back, so one increment is lost.\<close>

definition lost_update_prefix :: "event list" where
  "lost_update_prefix =
     replicate 7 (Run 0 0) @ replicate 7 (Run 1 0) @ [Run 0 0, Run 1 0]
     @ [Run 0 0, Run 0 0, Run 1 0, Run 1 0] @ replicate 7 (Run 0 0) @ replicate 7 (Run 1 0)"


section \<open>The invariant pair (w3/thread\_demo.c)\<close>

text \<open>\<open>pair_t pair_vals = {0, 0}\<close> with its fields \<open>a\<close> and \<open>b\<close> (named \<open>pair_a\<close> and
  \<open>pair_b\<close> here), and w3's mutex \<open>lock\<close>. \<open>sched_yield\<close> gives up the processor and
  changes nothing.\<close>

record pair_vals =
  pair_a :: int
  pair_b :: int
  lock :: "nat option"

definition sched_yield :: "'u \<Rightarrow> 'u" where
  "sched_yield u = u"

text \<open>w3 \<open>touch_pair_with_lock\<close>:
  \<open>for (...) { lock(&lock); pair_vals.a++; if ((i & 0x3FF) == 0) { spin 50 } pair_vals.b++;
  unlock(&lock); }\<close>\<close>

datatype held_pc =
  QTest | QLock | QLoadA | QStoreA | QSpin | QLoadB | QStoreB | QUnlock | QIncr | QReturn

definition touch_pair_with_lock ::
  "nat \<Rightarrow> nat \<Rightarrow> held_pc wlocal \<Rightarrow> pair_vals \<Rightarrow> (held_pc wlocal, pair_vals) action" where
  "touch_pair_with_lock K t l u =
     (case pc l of
        QTest \<Rightarrow> Local (l\<lparr>pc := (if i l < K then QLock else QReturn)\<rparr>) u
      | QLock \<Rightarrow> after (mutex_lock t (lock u)) (\<lambda>mt. Local (l\<lparr>pc := QLoadA\<rparr>) (u\<lparr>lock := mt\<rparr>))
      | QLoadA \<Rightarrow> Local (l\<lparr>pc := QStoreA, tmp := pair_a u\<rparr>) u
      | QStoreA \<Rightarrow> Local (l\<lparr>pc := QSpin\<rparr>) (u\<lparr>pair_a := tmp l + 1\<rparr>)
      | QSpin \<Rightarrow>
          (let spun = (if i l AND 0x3FF = 0 then spin_loop 0 50 else 0)
           in Local (l\<lparr>pc := QLoadB\<rparr>) u)
      | QLoadB \<Rightarrow> Local (l\<lparr>pc := QStoreB, tmp := pair_b u\<rparr>) u
      | QStoreB \<Rightarrow> Local (l\<lparr>pc := QUnlock\<rparr>) (u\<lparr>pair_b := tmp l + 1\<rparr>)
      | QUnlock \<Rightarrow>
          after (mutex_unlock t (lock u)) (\<lambda>mt. Local (l\<lparr>pc := QIncr\<rparr>) (u\<lparr>lock := mt\<rparr>))
      | QIncr \<Rightarrow> Local (l\<lparr>pc := QTest, i := i l + 1\<rparr>) u
      | QReturn \<Rightarrow> Finished)"

text \<open>w3 \<open>touch_pair_without_lock\<close>. Its locals are \<open>ta\<close>, \<open>tb\<close>, the value \<open>tmp\<close> of
  \<open>pair_vals.a\<close> read for the comparison \<open>pair_vals.a != pair_vals.b\<close>, and the pointer
  value \<open>ret\<close> it returns (0 for \<open>NULL\<close>, 1 for \<open>(void*)1\<close>).\<close>

record 'p plocal = "'p wlocal" +
  ta :: int
  tb :: int
  ret :: nat

datatype free_pc =
  NTest | NLoadA | NLoadB | NYield1 | NModify | NYield2 | NStoreA | NStoreB
  | NCheckA | NCheckB | NIncr | NReturn

definition touch_pair_without_lock ::
  "nat \<Rightarrow> nat \<Rightarrow> free_pc plocal \<Rightarrow> pair_vals \<Rightarrow> (free_pc plocal, pair_vals) action" where
  "touch_pair_without_lock K t l u =
     (case pc l of
        NTest \<Rightarrow> Local (if i l < K then l\<lparr>pc := NLoadA\<rparr> else l\<lparr>pc := NReturn, ret := 0\<rparr>) u
      | NLoadA \<Rightarrow> Local (l\<lparr>pc := NLoadB, ta := pair_a u\<rparr>) u
      | NLoadB \<Rightarrow> Local (l\<lparr>pc := NYield1, tb := pair_b u\<rparr>) u
      | NYield1 \<Rightarrow> Local (l\<lparr>pc := NModify\<rparr>) (if i l AND 0x1FF = 0 then sched_yield u else u)
      | NModify \<Rightarrow> Local (l\<lparr>pc := NYield2, ta := ta l + 1, tb := tb l + 1\<rparr>) u
      | NYield2 \<Rightarrow> Local (l\<lparr>pc := NStoreA\<rparr>) (if i l AND 0x3FF = 0 then sched_yield u else u)
      | NStoreA \<Rightarrow> Local (l\<lparr>pc := NStoreB\<rparr>) (u\<lparr>pair_a := ta l\<rparr>)
      | NStoreB \<Rightarrow> Local (l\<lparr>pc := NCheckA\<rparr>) (u\<lparr>pair_b := tb l\<rparr>)
      | NCheckA \<Rightarrow> Local (l\<lparr>pc := NCheckB, tmp := pair_a u\<rparr>) u
      | NCheckB \<Rightarrow>
          Local (if tmp l \<noteq> pair_b u then l\<lparr>pc := NReturn, ret := 1\<rparr> else l\<lparr>pc := NIncr\<rparr>) u
      | NIncr \<Rightarrow> Local (l\<lparr>pc := NTest, i := i l + 1\<rparr>) u
      | NReturn \<Rightarrow> Finished)"

text \<open>The harness of the two pair scenarios: \<open>pair_vals.a = pair_vals.b = 0\<close>, the mutex
  unlocked, \<open>W\<close> threads created (w3 has no semaphore; that component stays as it is).
  After the joins of Bonus A, \<open>broke\<close> is 1 if some worker has returned 1.\<close>

definition pair_start :: "'p \<Rightarrow> 'p plocal" where
  "pair_start p = \<lparr>pc = p, i = 0, tmp = 0, ta = 0, tb = 0, ret = 0\<rparr>"

definition pair_scenario :: "nat \<Rightarrow> 'l \<Rightarrow> 'l frame list \<times> pair_vals \<times> semc" where
  "pair_scenario W l0 = spawn W l0 \<lparr>pair_a = 0, pair_b = 0, lock = None\<rparr> (semc_init 0)"

definition bonus_a_broke :: "'p plocal frame list \<Rightarrow> nat" where
  "bonus_a_broke ls = fold (\<lambda>f broke. if ret (local_of f) = 1 then 1 else broke) ls 0"

text \<open>The update cycles (read, modify, write back both fields) a worker of
  \<open>touch_pair_without_lock\<close> has completed: those of the iterations it has finished, and
  that of the current iteration once \<open>pair_vals.b\<close> is written.\<close>

definition cycles_done :: "free_pc plocal \<Rightarrow> nat" where
  "cycles_done l =
     i l + (if pc l = NCheckA \<or> pc l = NCheckB \<or> pc l = NIncr \<or> (pc l = NReturn \<and> ret l = 1)
            then 1 else 0)"

definition free_ok :: "nat \<Rightarrow> free_pc plocal \<Rightarrow> bool" where
  "free_ok K l =
     (if pc l = NTest then i l \<le> K
      else if pc l = NReturn then (if ret l = 1 then i l < K else ret l = 0 \<and> i l = K)
      else i l < K)"

text \<open>What holds in the mutex-guarded pair scenario: a worker is between its lock and its
  unlock exactly when it owns the mutex, and then the two fields are as far apart as its
  program point says.\<close>

definition pair_held :: "held_pc wlocal \<Rightarrow> bool" where
  "pair_held l = (pc l = QLoadA \<or> pc l = QStoreA \<or> pc l = QSpin \<or> pc l = QLoadB
     \<or> pc l = QStoreB \<or> pc l = QUnlock)"

definition pair_rel :: "held_pc wlocal \<Rightarrow> pair_vals \<Rightarrow> bool" where
  "pair_rel l u =
     (case pc l of
        QLoadA \<Rightarrow> pair_a u = pair_b u
      | QStoreA \<Rightarrow> pair_a u = pair_b u \<and> tmp l = pair_a u
      | QSpin \<Rightarrow> pair_a u = pair_b u + 1
      | QLoadB \<Rightarrow> pair_a u = pair_b u + 1
      | QStoreB \<Rightarrow> pair_a u = pair_b u + 1 \<and> tmp l = pair_b u
      | QUnlock \<Rightarrow> pair_a u = pair_b u
      | _ \<Rightarrow> True)"

definition pair_inv :: "held_pc wlocal frame list \<times> pair_vals \<times> semc \<Rightarrow> bool" where
  "pair_inv c =
     (case c of (ls, u, s) \<Rightarrow>
        (\<forall>t<length ls.
           (case ls ! t of
              User l \<Rightarrow> (pair_held l \<longleftrightarrow> lock u = Some t) \<and> (pair_held l \<longrightarrow> pair_rel l u)
            | _ \<Rightarrow> False))
        \<and> (case lock u of None \<Rightarrow> pair_a u = pair_b u | Some t \<Rightarrow> t < length ls))"

section \<open>The race-amplification sequence\<close>

text \<open>What one iteration of an unsynchronised worker does, in program order: the reads and
  writes of shared variables, the calls of \<open>sched_yield\<close>, the rounds of busy-waiting,
  the changes of locals and the check of the invariant. \<open>j\<close> is the loop index.\<close>

datatype var = Counter | PairA | PairB

datatype act = Load var | Yield | Spin nat | Bump | Store var | Check

definition yield_if :: "bool \<Rightarrow> act list" where
  "yield_if b = (if b then [Yield] else [])"

text \<open>w6 \<open>inc_no_lock\<close>:
  \<open>long tmp = counter; if ((i & 0x3FF) == 0) sched_yield(); busy_spin(50); tmp = tmp + 1;
  if ((i & 0x7FF) == 0) sched_yield(); counter = tmp;\<close>\<close>

definition inc_no_lock_iter :: "nat \<Rightarrow> act list" where
  "inc_no_lock_iter j =
     [Load Counter] @ yield_if (j AND 0x3FF = 0) @ [Spin (busy_spin 50)] @ [Bump]
     @ yield_if (j AND 0x7FF = 0) @ [Store Counter]"

text \<open>w3 \<open>increment_without_lock_stressed\<close>: the same with the spin loop written in
  place, \<open>for (volatile int spin = 0; spin < 50; ++spin) {}\<close>.\<close>

definition increment_without_lock_stressed_iter :: "nat \<Rightarrow> act list" where
  "increment_without_lock_stressed_iter j =
     [Load Counter] @ yield_if (j AND 0x3FF = 0) @ [Spin (spin_loop 0 50)] @ [Bump]
     @ yield_if (j AND 0x7FF = 0) @ [Store Counter]"

text \<open>w3 \<open>touch_pair_without_lock\<close>:
  \<open>long ta = pair_vals.a; long tb = pair_vals.b; if ((i & 0x1FF) == 0) sched_yield();
  ta++; tb++; if ((i & 0x3FF) == 0) sched_yield(); pair_vals.a = ta; pair_vals.b = tb;
  if (pair_vals.a != pair_vals.b) return (void*)1;\<close>\<close>

definition touch_pair_without_lock_iter :: "nat \<Rightarrow> act list" where
  "touch_pair_without_lock_iter j =
     [Load PairA, Load PairB] @ yield_if (j AND 0x1FF = 0) @ [Bump, Bump]
     @ yield_if (j AND 0x3FF = 0) @ [Store PairA, Store PairB, Check]"

text \<open>Views of such a sequence: the spin counts in it, the yields before and after the
  change of the locals, and what is left when yields and spins are taken out.\<close>

fun spins :: "act list \<Rightarrow> nat list" where
  "spins [] = []"
| "spins (Spin n # xs) = n # spins xs"
| "spins (x # xs) = spins xs"

definition yields_before_modify :: "act list \<Rightarrow> nat" where
  "yields_before_modify xs = length (filter (\<lambda>x. x = Yield) (takeWhile (\<lambda>x. x \<noteq> Bump) xs))"

definition yields_after_modify :: "act list \<Rightarrow> nat" where
  "yields_after_modify xs = length (filter (\<lambda>x. x = Yield) (dropWhile (\<lambda>x. x \<noteq> Bump) xs))"

fun is_delay :: "act \<Rightarrow> bool" where
  "is_delay Yield = True"
| "is_delay (Spin n) = True"
| "is_delay x = False"

definition skeleton :: "act list \<Rightarrow> act list" where
  "skeleton xs = filter (\<lambda>x. \<not> is_delay x) xs"

text \<open>A schedule of two unsynchronised pair workers in which worker 0 finds the invariant
  broken in its last iteration.\<close>

definition detect_run :: "event list" where
  "detect_run = replicate 9 (Run 0 0) @ replicate 8 (Run 1 0) @ [Run 0 0] @ replicate 4 (Run 1 0)"

section \<open>How far the guarded counter workers are from their return\<close>

text \<open>The owner of the mutex of the counter scenarios is one of the threads created.\<close>

definition lock_owner :: "lock_pc wlocal frame list \<times> shared \<times> semc \<Rightarrow> bool" where
  "lock_owner c =
     (case c of (ls, u, s) \<Rightarrow> (case g_lock u of None \<Rightarrow> True | Some t \<Rightarrow> t < length ls))"

text \<open>The number of steps a mutex worker has yet to make before it returns: six for
  every iteration of its loop, and the last test of the loop.\<close>

definition lock_left :: "nat \<Rightarrow> lock_pc wlocal \<Rightarrow> nat" where
  "lock_left K l =
     (case pc l of
        LTest \<Rightarrow> 6 * (K - i l) + 1
      | LLock \<Rightarrow> 6 * (K - i l)
      | LLoad \<Rightarrow> 6 * (K - i l) - 1
      | LStore \<Rightarrow> 6 * (K - i l) - 2
      | LUnlock \<Rightarrow> 6 * (K - i l) - 3
      | LIncr \<Rightarrow> 6 * (K - i l) - 4
      | LReturn \<Rightarrow> 0)"

fun lock_rank :: "nat \<Rightarrow> semc \<Rightarrow> nat \<Rightarrow> lock_pc wlocal frame \<Rightarrow> nat" where
  "lock_rank K s t (User l) = lock_left K l"
| "lock_rank K s t (InWait p l) = 0"
| "lock_rank K s t (InPost p l) = 0"

text \<open>The work left in a state of the system is the sum over its threads.\<close>

definition steps_left ::
  "(semc \<Rightarrow> nat \<Rightarrow> 'l frame \<Rightarrow> nat) \<Rightarrow> 'l frame list \<times> 'u \<times> semc \<Rightarrow> nat" where
  "steps_left rank c = (case c of (ls, u, s) \<Rightarrow> (\<Sum>t<length ls. rank s t (ls ! t)))"

definition lock_good :: "nat \<Rightarrow> lock_pc wlocal frame list \<times> shared \<times> semc \<Rightarrow> bool" where
  "lock_good K c =
     (lock_inv c \<and> list_all (\<lambda>f. lock_ok K (local_of f)) (fst c) \<and> lock_owner c)"

text \<open>The owner of the semaphore's mutex is one of the threads created.\<close>

definition sem_owner :: "'l frame list \<times> 'u \<times> semc \<Rightarrow> bool" where
  "sem_owner c =
     (case c of (ls, u, s) \<Rightarrow> (case m s of None \<Rightarrow> True | Some t \<Rightarrow> t < length ls))"

text \<open>A thread enters \<open>pthread_cond_wait\<close> only on a zero count.\<close>

fun cond_ok :: "'l frame \<Rightarrow> semc \<Rightarrow> bool" where
  "cond_ok (InWait WCondWait l) s = (count s = 0)"
| "cond_ok f s = True"

text \<open>The threads on their way to a permit that is there: the thread that has raised the
  count and is about to signal, and the threads that have been unblocked and have not yet
  lowered the count.\<close>

fun taker :: "semc \<Rightarrow> nat \<Rightarrow> 'l frame \<Rightarrow> bool" where
  "taker s t (User l) = False"
| "taker s t (InWait p l) =
     (case p of
        WSleep \<Rightarrow> t \<notin> cv s
      | WReacq \<Rightarrow> True
      | WTest \<Rightarrow> True
      | WLoad \<Rightarrow> True
      | WStore r \<Rightarrow> True
      | _ \<Rightarrow> False)"
| "taker s t (InPost p l) = (p = PSignal)"

text \<open>No wake-up is lost on a semaphore of at most one permit: while the count is not zero
  and some thread is blocked on the condition variable, some thread is on its way to the
  permit.\<close>

definition wake_inv :: "'l frame list \<times> 'u \<times> semc \<Rightarrow> bool" where
  "wake_inv c =
     (case c of (ls, u, s) \<Rightarrow>
        (\<forall>t<length ls. cond_ok (ls ! t) s)
        \<and> (count s = 0 \<or> cv s = {} \<or> (\<exists>t<length ls. taker s t (ls ! t))))"

text \<open>The binary-semaphore worker is inside \<open>semc_wait\<close> only from \<open>BWait\<close> and inside
  \<open>semc_post\<close> only from \<open>BPost\<close>.\<close>

fun bin_frame :: "bin_pc wlocal frame \<Rightarrow> bool" where
  "bin_frame (User l) = True"
| "bin_frame (InWait p l) = (pc l = BLoad)"
| "bin_frame (InPost p l) = (pc l = BIncr)"

text \<open>A bound on the number of steps a binary-semaphore worker has yet to make before it
  returns, when no thread is made to go round the loop of \<open>semc_wait\<close> in vain.\<close>

fun wait_rank :: "semc \<Rightarrow> nat \<Rightarrow> wait_pc \<Rightarrow> nat" where
  "wait_rank s t WLock = 5"
| "wait_rank s t WTest = (if count s = 0 then 9 else 4)"
| "wait_rank s t WCondWait = 8"
| "wait_rank s t WSleep = (if t \<in> cv s then 7 else 6)"
| "wait_rank s t WReacq = 5"
| "wait_rank s t WLoad = 3"
| "wait_rank s t (WStore r) = 2"
| "wait_rank s t WUnlock = 1"

fun post_rank :: "post_pc \<Rightarrow> nat" where
  "post_rank PLock = 5"
| "post_rank PLoad = 4"
| "post_rank (PStore r) = 3"
| "post_rank PSignal = 2"
| "post_rank PUnlock = 1"

definition bin_left :: "nat \<Rightarrow> bin_pc wlocal \<Rightarrow> nat" where
  "bin_left K l =
     (case pc l of
        BTest \<Rightarrow> 23 * (K - i l) + 22
      | BWait \<Rightarrow> 23 * (K - i l) + 21
      | BLoad \<Rightarrow> 23 * (K - i l) + 11
      | BStore \<Rightarrow> 23 * (K - i l) + 10
      | BPost \<Rightarrow> 23 * (K - i l) + 9
      | BIncr \<Rightarrow> 23 * (K - i l) + 3
      | BReturn \<Rightarrow> 0)"

fun bin_rank :: "nat \<Rightarrow> semc \<Rightarrow> nat \<Rightarrow> bin_pc wlocal frame \<Rightarrow> nat" where
  "bin_rank K s t (User l) = bin_left K l"
| "bin_rank K s t (InWait p l) = bin_left K l + wait_rank s t p"
| "bin_rank K s t (InPost p l) = bin_left K l + post_rank p"

definition bin_good :: "nat \<Rightarrow> bin_pc wlocal frame list \<times> shared \<times> semc \<Rightarrow> bool" where
  "bin_good K c =
     (sem_inv c \<and> permit_inv 1 bin_perm c
      \<and> list_all (\<lambda>f. bin_ok K (local_of f)) (fst c) \<and> list_all bin_frame (fst c)
      \<and> sem_owner c \<and> wake_inv c)"

text \<open>The steps of the threads themselves, as opposed to spurious wake-ups.\<close>

fun is_run :: "event \<Rightarrow> bool" where
  "is_run (Run t ch) = True"
| "is_run (Wake t) = False"
section \<open>Proofs: the formatters\<close>

lemma of_char_lt_256: "(of_char c :: nat) < 256"
  by (cases c) simp

lemma NUL_iff_of_char: "d = NUL \<longleftrightarrow> of_char d = (0::nat)"
proof -
  have "of_char NUL = (0::nat)" by (simp add: NUL_def)
  then show ?thesis by (metis of_char_eq_iff)
qed

lemma toupper_c_NUL_iff: "toupper_c c = NUL \<longleftrightarrow> c = NUL"
proof -
  have "of_char (toupper_c c) = (0::nat) \<longleftrightarrow> of_char c = (0::nat)"
    using of_char_lt_256[of c] unfolding toupper_c_def Let_def
    by (auto simp: of_char_of)
  then show ?thesis by (simp add: NUL_iff_of_char)
qed

lemma strlen_le: "strlen s \<le> length s"
  by (simp add: strlen_def length_takeWhile_le)

lemma take_strlen: "take (strlen s) s = takeWhile (\<lambda>c. c \<noteq> NUL) s"
  unfolding strlen_def by (rule takeWhile_eq_take [symmetric])

lemma nth_before_strlen:
  assumes "j < strlen s"
  shows "s ! j \<noteq> NUL"
proof -
  let ?t = "takeWhile (\<lambda>c. c \<noteq> NUL) s"
  have "?t ! j \<in> set ?t" using assms by (simp add: strlen_def)
  then have "?t ! j \<noteq> NUL" by (rule set_takeWhileD [THEN conjunct2])
  moreover have "?t ! j = s ! j" using assms by (simp add: strlen_def takeWhile_nth)
  ultimately show ?thesis by simp
qed

lemma upper_loop_in_bounds:
  "n \<le> length s \<Longrightarrow> j \<le> n \<Longrightarrow>
   upper_loop s out j n mem =
     Returned () (\<lambda>a. if out + j \<le> a \<and> a < out + n then toupper_c (s ! (a - out)) else mem a)"
proof (induction "n - j" arbitrary: j mem)
  case 0
  then have "j = n" by simp
  then show ?case by (subst upper_loop.simps) (auto simp: fun_eq_iff)
next
  case (Suc k)
  then have lt: "j < n" by simp
  then have at: "str_at s j = Some (s ! j)"
    using Suc.prems by (simp add: str_at_def)
  let ?m = "mem(out + j := toupper_c (s ! j))"
  have "upper_loop s out (j + 1) n ?m =
        Returned () (\<lambda>a. if out + (j + 1) \<le> a \<and> a < out + n then toupper_c (s ! (a - out))
                          else ?m a)"
    using Suc.hyps(2) Suc.prems lt by (intro Suc.hyps(1)) auto
  also have "(\<lambda>a. if out + (j + 1) \<le> a \<and> a < out + n then toupper_c (s ! (a - out))
                          else ?m a) =
       (\<lambda>a. if out + j \<le> a \<and> a < out + n then toupper_c (s ! (a - out)) else mem a)"
    using lt by (auto simp: fun_eq_iff)
  finally have step: "upper_loop s out (j + 1) n ?m =
      Returned () (\<lambda>a. if out + j \<le> a \<and> a < out + n then toupper_c (s ! (a - out)) else mem a)" .
  show ?case
    by (subst upper_loop.simps) (simp only: lt at if_True option.case step)
qed

lemma upper_loop_spin_eq: "upper_loop_spin s buf j n mem = upper_loop s buf j n mem"
proof (induction "n - j" arbitrary: j mem)
  case 0
  then show ?case by (subst upper_loop_spin.simps, subst upper_loop.simps) simp
next
  case (Suc k)
  then have lt: "j < n" by simp
  have ih: "\<And>mem'. upper_loop_spin s buf (j + 1) n mem' = upper_loop s buf (j + 1) n mem'"
    using Suc.hyps(2) lt by (intro Suc.hyps(1)) auto
  show ?case
    by (subst upper_loop_spin.simps, subst upper_loop.simps)
       (simp only: Let_def ih split: option.splits)
qed

lemma upper_loop_written:
  assumes "n \<le> length s"
  shows "(case upper_loop s out 0 n mem of Crashed f mem' \<Rightarrow> Crashed f mem'
          | Returned u mem' \<Rightarrow> Returned r (mem'(out + n := NUL))) = Returned r (written s out n mem)"
proof -
  have "(\<lambda>a. if out + 0 \<le> a \<and> a < out + n then toupper_c (s ! (a - out)) else mem a)(out + n := NUL)
      = written s out n mem"
    by (auto simp: fun_eq_iff written_def)
  then show ?thesis
    using upper_loop_in_bounds[OF assms, of 0 out mem] by simp
qed

lemma cstr_at_written:
  assumes "n \<le> strlen s" "n < cap"
  shows "cstr_at (written s out n mem) out cap = map toupper_c (take n s)"
proof -
  have len: "n \<le> length s" using assms(1) strlen_le[of s] by simp
  have split: "[0..<cap] = [0..<n] @ n # [Suc n..<cap]"
    using assms(2) by (metis le_add2 less_imp_add_positive upt_add_eq_append upt_conv_Cons zero_le
        add.commute le_add1 less_imp_le_nat upt_conv_Cons le_Suc_ex)
  have pre: "map (\<lambda>j. written s out n mem (out + j)) [0..<n] = map toupper_c (take n s)"
    using len by (intro nth_equalityI) (auto simp: written_def)
  have nn: "\<forall>c \<in> set (map toupper_c (take n s)). c \<noteq> NUL"
  proof
    fix c assume "c \<in> set (map toupper_c (take n s))"
    then obtain j where "j < n" "c = toupper_c (s ! j)"
      using len by (auto simp: in_set_conv_nth)
    then show "c \<noteq> NUL"
      using nth_before_strlen[of j s] assms(1) by (simp add: toupper_c_NUL_iff)
  qed
  have "written s out n mem (out + n) = NUL" by (simp add: written_def)
  then show ?thesis
    unfolding cstr_at_def split using pre nn
    by (simp add: takeWhile_tail) 
qed

lemma upper_trunc_take: "upper_trunc s cap = map toupper_c (take (min (strlen s) (cap - 1)) s)"
  by (simp add: upper_trunc_def take_strlen [symmetric] min.commute)

lemma upper_loop_0:
  "n \<le> length s \<Longrightarrow>
   upper_loop s out 0 n mem =
     Returned () (\<lambda>a. if out \<le> a \<and> a < out + n then toupper_c (s ! (a - out)) else mem a)"
  using upper_loop_in_bounds[of n s 0 out mem] by simp

lemma written_eq:
  "(\<lambda>a. if out \<le> a \<and> a < out + n then toupper_c (s ! (a - out)) else mem a)(out + n := NUL)
     = written s out n mem"
  by (auto simp: fun_eq_iff written_def)

lemma upper_reentrant_written:
  assumes "0 < outcap"
  shows "upper_reentrant (Some s) out outcap mem =
    Returned () (written s out (min (strlen s) (outcap - 1)) mem)"
proof (cases "outcap \<le> strlen s")
  case True
  from assms obtain k where k: "outcap = Suc k" by (cases outcap) auto
  have "k \<le> length s" using True strlen_le[of s] k by simp
  then show ?thesis
    using True k by (simp add: upper_reentrant_def Let_def upper_loop_0 written_eq min_def)
next
  case False
  from assms obtain k where k: "outcap = Suc k" by (cases outcap) auto
  then have "strlen s \<le> k" using False by simp
  then show ?thesis
    using False k strlen_le[of s]
    by (simp add: upper_reentrant_def Let_def upper_loop_0 written_eq min_def)
qed

lemma reentrant_upper_written:
  assumes "0 < outcap"
  shows "reentrant_upper (Some s) out outcap mem =
    Returned () (written s out (min (strlen s) (outcap - 1)) mem)"
proof (cases "outcap \<le> strlen s")
  case True
  from assms obtain k where k: "outcap = Suc k" by (cases outcap) auto
  have "k \<le> length s" using True strlen_le[of s] k by simp
  then show ?thesis
    using True k
    by (simp add: reentrant_upper_def size_pred_def Let_def upper_loop_0 written_eq min_def)
next
  case False
  from assms obtain k where k: "outcap = Suc k" by (cases outcap) auto
  then have "strlen s \<le> k" using False by simp
  then show ?thesis
    using False k strlen_le[of s]
    by (simp add: reentrant_upper_def Let_def upper_loop_0 written_eq min_def)
qed

lemma upper_not_reentrant_written:
  "upper_not_reentrant buf (Some s) mem = Returned buf (written s buf (min (strlen s) 63) mem)"
proof (cases "64 \<le> strlen s")
  case True
  then have "63 \<le> length s" using strlen_le[of s] by simp
  then show ?thesis
    using True
    by (simp add: upper_not_reentrant_def Let_def upper_loop_spin_eq upper_loop_0 written_eq)
next
  case False
  then show ?thesis
    using strlen_le[of s]
    by (simp add: upper_not_reentrant_def Let_def upper_loop_spin_eq upper_loop_0 written_eq
        min_def)
qed

lemma not_reentrant_upper_eq: "not_reentrant_upper = upper_not_reentrant"
  by (simp add: fun_eq_iff not_reentrant_upper_def upper_not_reentrant_def)

lemma not_reentrant_upper_written:
  "not_reentrant_upper buf (Some s) mem = Returned buf (written s buf (min (strlen s) 63) mem)"
  by (simp only: not_reentrant_upper_eq upper_not_reentrant_written)

lemma cstr_at_written_trunc:
  assumes "0 < cap"
  shows "cstr_at (written s out (min (strlen s) (cap - 1)) mem) out cap = upper_trunc s cap"
  using assms by (simp add: cstr_at_written upper_trunc_take)

lemma written_frame: "a < out \<or> out + cap \<le> a \<Longrightarrow> n < cap \<Longrightarrow> written s out n mem a = mem a"
  by (auto simp: written_def)

lemma cstr_at_frame:
  assumes "\<forall>a. out \<le> a \<and> a < out + cap \<longrightarrow> mem' a = mem a"
  shows "cstr_at mem' out cap = cstr_at mem out cap"
proof -
  have "map (\<lambda>j. mem' (out + j)) [0..<cap] = map (\<lambda>j. mem (out + j)) [0..<cap]"
    by (rule map_cong) (use assms in auto)
  then show ?thesis by (simp only: cstr_at_def)
qed

text \<open>
  Claim C7. For a capacity \<open>outcap > 0\<close> and any input string (of length 0, below the
  capacity, or at and beyond it), both caller-buffer formatters return normally with the
  same memory; the string then read at the destination is the upper-cased input cut to at
  most \<open>outcap - 1\<close> characters, its terminator lies inside the buffer, and every byte
  outside \<open>[out, out + outcap)\<close> is as before. Hence a later call on a disjoint buffer
  leaves the first result in place and produces its own.
\<close>

theorem upper_reentrant_correct:
  assumes "0 < outcap"
  shows "\<exists>mem'. upper_reentrant (Some s) out outcap mem = Returned () mem'
      \<and> reentrant_upper (Some s) out outcap mem = Returned () mem'
      \<and> cstr_at mem' out outcap = upper_trunc s outcap
      \<and> length (upper_trunc s outcap) \<le> outcap - 1
      \<and> mem' (out + length (upper_trunc s outcap)) = NUL
      \<and> (\<forall>a. a < out \<or> out + outcap \<le> a \<longrightarrow> mem' a = mem a)
      \<and> (\<forall>s2 out2 cap2. 0 < cap2 \<and> (out2 + cap2 \<le> out \<or> out + outcap \<le> out2) \<longrightarrow>
           (\<exists>mem''. upper_reentrant (Some s2) out2 cap2 mem' = Returned () mem''
              \<and> cstr_at mem'' out outcap = upper_trunc s outcap
              \<and> cstr_at mem'' out2 cap2 = upper_trunc s2 cap2))"
proof -
  let ?n = "min (strlen s) (outcap - 1)"
  let ?m' = "written s out ?n mem"
  have n_lt: "?n < outcap" using assms by simp
  have len: "length (upper_trunc s outcap) = ?n"
    using strlen_le[of s] by (simp add: upper_trunc_take)
  have c1: "cstr_at ?m' out outcap = upper_trunc s outcap"
    by (rule cstr_at_written_trunc [OF assms])
  have frame: "\<forall>a. a < out \<or> out + outcap \<le> a \<longrightarrow> ?m' a = mem a"
    using n_lt by (simp add: written_frame)
  have two: "\<exists>mem''. upper_reentrant (Some s2) out2 cap2 ?m' = Returned () mem''
              \<and> cstr_at mem'' out outcap = upper_trunc s outcap
              \<and> cstr_at mem'' out2 cap2 = upper_trunc s2 cap2"
    if h: "0 < cap2 \<and> (out2 + cap2 \<le> out \<or> out + outcap \<le> out2)" for s2 out2 cap2
  proof -
    let ?k = "min (strlen s2) (cap2 - 1)"
    let ?m'' = "written s2 out2 ?k ?m'"
    from h have "0 < cap2" by simp
    then have k_lt: "?k < cap2" by simp
    have "\<forall>a. out \<le> a \<and> a < out + outcap \<longrightarrow> ?m'' a = ?m' a"
      using h k_lt by (auto intro!: written_frame)
    then have "cstr_at ?m'' out outcap = upper_trunc s outcap"
      using c1 cstr_at_frame by metis
    moreover have "cstr_at ?m'' out2 cap2 = upper_trunc s2 cap2"
      using \<open>0 < cap2\<close> by (rule cstr_at_written_trunc)
    moreover have "upper_reentrant (Some s2) out2 cap2 ?m' = Returned () ?m''"
      using h by (simp add: upper_reentrant_written)
    ultimately show ?thesis by blast
  qed
  have "?m' (out + length (upper_trunc s outcap)) = NUL"
    unfolding len by (simp add: written_def)
  with c1 frame two len n_lt show ?thesis
    using upper_reentrant_written[OF assms, of s out mem] reentrant_upper_written[OF assms, of s out mem]
    by (intro exI[of _ ?m']) (simp only: simp_thms, fastforce)
qed

text \<open>Witness for C7: the input \<open>hello\<close> into a buffer of four bytes at address 100.\<close>

theorem upper_reentrant_correct_witness:
  "\<exists>mem'. upper_reentrant (Some ''hello'') 100 4 (\<lambda>a. CHR ''x'') = Returned () mem'
      \<and> reentrant_upper (Some ''hello'') 100 4 (\<lambda>a. CHR ''x'') = Returned () mem'
      \<and> cstr_at mem' 100 4 = ''HEL'' \<and> mem' 103 = NUL \<and> mem' 104 = CHR ''x''"
proof -
  have u: "upper_trunc ''hello'' 4 = ''HEL''" by code_simp
  have pos: "0 < (4::nat)" by simp
  from upper_reentrant_correct[OF pos, of "''hello''" 100 "\<lambda>a. CHR ''x''"]
  show ?thesis unfolding u by auto
qed

text \<open>
  Claim C8. Two calls of the static-buffer formatter in sequence, on \<open>hello\<close> and then on
  \<open>world\<close>, both return the address of the one static buffer; the buffer reads \<open>HELLO\<close>
  after the first call and exactly \<open>WORLD\<close> after the second. This holds for w6
  \<open>upper_not_reentrant\<close> and for w3 \<open>not_reentrant_upper\<close>.
\<close>

theorem not_reentrant_last_write_wins:
  "\<exists>m1 m2. upper_not_reentrant buf (Some ''hello'') mem = Returned buf m1
      \<and> cstr_at m1 buf 64 = ''HELLO''
      \<and> upper_not_reentrant buf (Some ''world'') m1 = Returned buf m2
      \<and> cstr_at m2 buf 64 = ''WORLD''
      \<and> not_reentrant_upper buf (Some ''hello'') mem = Returned buf m1
      \<and> not_reentrant_upper buf (Some ''world'') m1 = Returned buf m2"
proof -
  have h: "upper_trunc ''hello'' 64 = ''HELLO''" by code_simp
  have w: "upper_trunc ''world'' 64 = ''WORLD''" by code_simp
  have c: "cstr_at (written s buf (min (strlen s) 63) mem') buf 64 = upper_trunc s 64" for s mem'
    using cstr_at_written_trunc[of 64 s buf mem'] by simp
  let ?m1 = "written ''hello'' buf (min (strlen ''hello'') 63) mem"
  let ?m2 = "written ''world'' buf (min (strlen ''world'') 63) ?m1"
  have "upper_not_reentrant buf (Some ''hello'') mem = Returned buf ?m1"
    and "upper_not_reentrant buf (Some ''world'') ?m1 = Returned buf ?m2"
    and "not_reentrant_upper buf (Some ''hello'') mem = Returned buf ?m1"
    and "not_reentrant_upper buf (Some ''world'') ?m1 = Returned buf ?m2"
    by (rule upper_not_reentrant_written not_reentrant_upper_written)+
  moreover have "cstr_at ?m1 buf 64 = ''HELLO''" "cstr_at ?m2 buf 64 = ''WORLD''"
    by (simp_all only: c h w)
  ultimately show ?thesis by blast
qed

text \<open>
  Claim C9, as amended. A zero capacity passed to w6 \<open>upper_reentrant\<close> makes it return
  at once and normally, with the memory untouched, whatever the input pointer is (the null
  pointer too: the input is not looked at).
\<close>

theorem upper_reentrant_zero_capacity:
  "upper_reentrant s out 0 mem = Returned () mem"
  by (simp add: upper_reentrant_def)

text \<open>
  Counterexample to C9 as stated. No formatter checks its input pointer: with a null input
  (and a capacity of four where there is one) \<open>strlen\<close> dereferences the null pointer, which
  is undefined behaviour and not a local, reported failure.
\<close>

theorem formatter_null_input_counterexample:
  "upper_reentrant None 100 4 (\<lambda>a. NUL) = Crashed NullDeref (\<lambda>a. NUL)
   \<and> reentrant_upper None 100 4 (\<lambda>a. NUL) = Crashed NullDeref (\<lambda>a. NUL)
   \<and> upper_not_reentrant 100 None (\<lambda>a. NUL) = Crashed NullDeref (\<lambda>a. NUL)
   \<and> not_reentrant_upper 100 None (\<lambda>a. NUL) = Crashed NullDeref (\<lambda>a. NUL)"
  by (simp add: upper_reentrant_def reentrant_upper_def upper_not_reentrant_def
      not_reentrant_upper_def)

text \<open>w3 \<open>reentrant_upper\<close> has no capacity guard: on a zero capacity and the empty string
  it stores a byte at \<open>out\<close>, outside the empty buffer, and then reads past the input.\<close>

lemma reentrant_upper_zero_capacity_writes:
  "reentrant_upper (Some []) out 0 mem = Crashed OutOfBounds (mem(out := NUL))"
proof -
  have big: "Suc 0 < SIZE_MAX" by (simp add: SIZE_MAX_def)
  have 1: "upper_loop [] out (Suc 0) SIZE_MAX (mem(out := NUL)) = Crashed OutOfBounds (mem(out := NUL))"
    by (subst upper_loop.simps) (simp add: str_at_def big)
  have t: "toupper_c NUL = NUL" by (simp add: toupper_c_NUL_iff)
  from big have pos: "0 < SIZE_MAX" by simp
  have 0: "upper_loop [] out 0 SIZE_MAX mem = Crashed OutOfBounds (mem(out := NUL))"
    by (subst upper_loop.simps) (simp add: str_at_def t 1 pos)
  show ?thesis
    by (simp add: reentrant_upper_def strlen_def size_pred_def Let_def 0)
qed
section \<open>Proofs: interleavings and the semaphore\<close>

lemma run_append:
  "run prog (es @ es') c = (case run prog es c of Step c' \<Rightarrow> run prog es' c' | NoStep \<Rightarrow> NoStep | Undefined \<Rightarrow> Undefined)"
  by (induction es arbitrary: c) (auto split: step.splits)

lemma run_append_Step:
  "run prog es c = Step c' \<Longrightarrow> run prog es' c' = r \<Longrightarrow> run prog (es @ es') c = r"
  by (simp add: run_append)

lemma run_invariant:
  assumes "run prog es c = Step c'" and "I c"
    and "\<And>e c c'. I c \<Longrightarrow> sys_step prog e c = Step c' \<Longrightarrow> I c'"
  shows "I c'"
  using assms(1,2)
proof (induction es arbitrary: c)
  case Nil
  then show ?case by simp
next
  case (Cons e es)
  then show ?case using assms(3) by (auto split: step.splits)
qed

lemma map_step_eq_Step: "map_step f x = Step y \<longleftrightarrow> (\<exists>z. x = Step z \<and> y = f z)"
  by (cases x) auto

lemma sys_step_cases:
  assumes "sys_step prog e (ls, u, s) = Step c'"
  obtains (run) t ch f' u' s' where "e = Run t ch" "t < length ls"
      "thread_step prog t ch (ls ! t) u s = Step (f', u', s')" "c' = (ls[t := f'], u', s')"
  | (wake) t where "e = Wake t" "t < length ls" "asleep (ls ! t)" "t \<in> cv s"
      "c' = (ls, u, s\<lparr>cv := cv s - {t}\<rparr>)"
proof (cases e)
  case (Run t ch)
  with assms have lt: "t < length ls"
    and "\<exists>z. thread_step prog t ch (ls ! t) u s = Step z \<and> c' = (case z of (f', u', s') \<Rightarrow> (ls[t := f'], u', s'))"
    by (auto simp: map_step_eq_Step split: if_splits)
  then obtain f' u' s' where "thread_step prog t ch (ls ! t) u s = Step (f', u', s')"
    "c' = (ls[t := f'], u', s')"
    by auto
  with Run lt show ?thesis by (rule run)
next
  case (Wake t)
  with assms show ?thesis
    by (intro wake[of t]) (auto split: if_splits)
qed

lemma thread_step_cases:
  assumes "thread_step prog t ch f u s = Step (f', u', s')"
  obtains (local) l l' where "f = User l" "prog t l u = Local l' u'" "f' = User l'" "s' = s"
  | (callw) l l' where "f = User l" "prog t l u = CallWait l'" "f' = InWait WLock l'"
      "u' = u" "s' = s"
  | (callp) l l' where "f = User l" "prog t l u = CallPost l'" "f' = InPost PLock l'"
      "u' = u" "s' = s"
  | (wait) p l r where "f = InWait p l" "semc_wait_step t p s = Step (r, s')" "u' = u"
      "f' = (case r of None \<Rightarrow> User l | Some p' \<Rightarrow> InWait p' l)"
  | (post) p l r where "f = InPost p l" "semc_post_step ch t p s = Step (r, s')" "u' = u"
      "f' = (case r of None \<Rightarrow> User l | Some p' \<Rightarrow> InPost p' l)"
proof (cases f)
  case (User l)
  with assms show ?thesis
    by (cases "prog t l u") (auto simp: thread_step_def intro: local callw callp)
next
  case (InWait p l)
  with assms show ?thesis
    by (auto simp: thread_step_def map_step_eq_Step intro: wait)
next
  case (InPost p l)
  with assms show ?thesis
    by (auto simp: thread_step_def map_step_eq_Step intro: post)
qed

lemma semc_wait_step_cases:
  assumes "semc_wait_step t p s = Step (r, s')"
  obtains (WLock) "p = WLock" "m s = None" "r = Some WTest" "s' = s\<lparr>m := Some t\<rparr>"
  | (WTest0) "p = WTest" "count s = 0" "r = Some WCondWait" "s' = s"
  | (WTest1) "p = WTest" "count s \<noteq> 0" "r = Some WLoad" "s' = s"
  | (WCondWait) "p = WCondWait" "m s = Some t" "r = Some WSleep"
      "s' = s\<lparr>m := None, cv := insert t (cv s)\<rparr>"
  | (WSleep) "p = WSleep" "t \<notin> cv s" "r = Some WReacq" "s' = s"
  | (WReacq) "p = WReacq" "m s = None" "r = Some WTest" "s' = s\<lparr>m := Some t\<rparr>"
  | (WLoad) "p = WLoad" "r = Some (WStore (count s))" "s' = s"
  | (WStore) x where "p = WStore x" "x \<noteq> INT_MIN" "r = Some WUnlock" "s' = s\<lparr>count := x - 1\<rparr>"
  | (WUnlock) "p = WUnlock" "m s = Some t" "r = None" "s' = s\<lparr>m := None\<rparr>"
proof (cases p)
  case WLock
  with assms have "m s = None" "r = Some WTest" "s' = s\<lparr>m := Some t\<rparr>"
    by (simp_all add: map_step_eq_Step mutex_lock_def split: if_splits)
  with WLock show ?thesis by (rule that(1))
next
  case WTest
  show ?thesis
  proof (cases "count s = 0")
    case True
    with assms WTest have "r = Some WCondWait" "s' = s" by simp_all
    with WTest True show ?thesis by (rule that(2))
  next
    case False
    with assms WTest have "r = Some WLoad" "s' = s" by simp_all
    with WTest False show ?thesis by (rule that(3))
  qed
next
  case WCondWait
  with assms have "m s = Some t" "r = Some WSleep" "s' = s\<lparr>m := None, cv := insert t (cv s)\<rparr>"
    by (simp_all add: map_step_eq_Step mutex_unlock_def split: if_splits)
  with WCondWait show ?thesis by (rule that(4))
next
  case WSleep
  with assms have "t \<notin> cv s" "r = Some WReacq" "s' = s"
    by (simp_all split: if_splits)
  with WSleep show ?thesis by (rule that(5))
next
  case WReacq
  with assms have "m s = None" "r = Some WTest" "s' = s\<lparr>m := Some t\<rparr>"
    by (simp_all add: map_step_eq_Step mutex_lock_def split: if_splits)
  with WReacq show ?thesis by (rule that(6))
next
  case WLoad
  with assms have "r = Some (WStore (count s))" "s' = s" by auto
  with WLoad show ?thesis by (rule that(7))
next
  case (WStore x)
  with assms have "x \<noteq> INT_MIN" "r = Some WUnlock" "s' = s\<lparr>count := x - 1\<rparr>"
    by (simp_all split: if_splits)
  with WStore show ?thesis by (rule that(8))
next
  case WUnlock
  with assms have "m s = Some t" "r = None" "s' = s\<lparr>m := None\<rparr>"
    by (simp_all add: map_step_eq_Step mutex_unlock_def split: if_splits)
  with WUnlock show ?thesis by (rule that(9))
qed

lemma semc_post_step_cases:
  assumes "semc_post_step ch t p s = Step (r, s')"
  obtains (PLock) "p = PLock" "m s = None" "r = Some PLoad" "s' = s\<lparr>m := Some t\<rparr>"
  | (PLoad) "p = PLoad" "r = Some (PStore (count s))" "s' = s"
  | (PStore) x where "p = PStore x" "x \<noteq> INT_MAX" "r = Some PSignal" "s' = s\<lparr>count := x + 1\<rparr>"
  | (PSignal0) "p = PSignal" "cv s = {}" "r = Some PUnlock" "s' = s"
  | (PSignal1) "p = PSignal" "ch \<in> cv s" "r = Some PUnlock" "s' = s\<lparr>cv := cv s - {ch}\<rparr>"
  | (PUnlock) "p = PUnlock" "m s = Some t" "r = None" "s' = s\<lparr>m := None\<rparr>"
proof (cases p)
  case PLock
  with assms have "m s = None" "r = Some PLoad" "s' = s\<lparr>m := Some t\<rparr>"
    by (simp_all add: map_step_eq_Step mutex_lock_def split: if_splits)
  with PLock show ?thesis by (rule that(1))
next
  case PLoad
  with assms have "r = Some (PStore (count s))" "s' = s" by auto
  with PLoad show ?thesis by (rule that(2))
next
  case (PStore x)
  with assms have "x \<noteq> INT_MAX" "r = Some PSignal" "s' = s\<lparr>count := x + 1\<rparr>"
    by (simp_all split: if_splits)
  with PStore show ?thesis by (rule that(3))
next
  case PSignal
  show ?thesis
  proof (cases "cv s = {}")
    case True
    with assms PSignal have "r = Some PUnlock" "s' = s"
      by (auto simp: map_step_eq_Step cond_signal_def)
    with PSignal True show ?thesis by (rule that(4))
  next
    case False
    with assms PSignal have "ch \<in> cv s" "r = Some PUnlock" "s' = s\<lparr>cv := cv s - {ch}\<rparr>"
      by (simp_all add: map_step_eq_Step cond_signal_def split: if_splits)
    with PSignal show ?thesis by (rule that(5))
  qed
next
  case PUnlock
  with assms have "m s = Some t" "r = None" "s' = s\<lparr>m := None\<rparr>"
    by (simp_all add: map_step_eq_Step mutex_unlock_def split: if_splits)
  with PUnlock show ?thesis by (rule that(6))
qed

lemma joined_iff:
  "joined prog (ls, u, s) \<longleftrightarrow> (\<forall>t<length ls. returned prog u (t, ls ! t))"
  by (auto simp: list_all_length nth_enumerate_eq)

lemma reg_ok_cong: "count s' = count s \<Longrightarrow> reg_ok f s' = reg_ok f s"
  by (induction f s rule: reg_ok.induct) auto

lemma reg_ok_m_update [simp]: "reg_ok f (s\<lparr>m := x\<rparr>) = reg_ok f s"
  by (rule reg_ok_cong) simp

lemma reg_ok_cv_update [simp]: "reg_ok f (s\<lparr>cv := y\<rparr>) = reg_ok f s"
  by (rule reg_ok_cong) simp

lemma reg_ok_free: "\<not> holds_m f \<Longrightarrow> reg_ok f s"
  by (induction f s rule: reg_ok.induct) auto

lemma sem_invI:
  assumes "0 \<le> count s"
    and "\<And>t. t < length ls \<Longrightarrow> holds_m (ls ! t) \<longleftrightarrow> m s = Some t"
    and "\<And>t. t < length ls \<Longrightarrow> reg_ok (ls ! t) s"
    and "\<And>t. t \<in> cv s \<Longrightarrow> t < length ls \<and> asleep (ls ! t)"
  shows "sem_inv (ls, u, s)"
  using assms unfolding sem_inv_def by simp

lemma sem_invD:
  assumes "sem_inv (ls, u, s)"
  shows "0 \<le> count s"
    and "\<And>t. t < length ls \<Longrightarrow> holds_m (ls ! t) \<longleftrightarrow> m s = Some t"
    and "\<And>t. t < length ls \<Longrightarrow> reg_ok (ls ! t) s"
    and "\<And>t. t \<in> cv s \<Longrightarrow> t < length ls \<and> asleep (ls ! t)"
  using assms unfolding sem_inv_def by simp_all

text \<open>One thread moves from \<open>ls ! t\<close> to \<open>f'\<close> and the semaphore from \<open>s\<close> to \<open>s'\<close>.\<close>

lemma sem_inv_update:
  assumes inv: "sem_inv (ls, u, s)" and lt: "t < length ls"
    and nn: "0 \<le> count s'"
    and me: "holds_m f' \<longleftrightarrow> m s' = Some t" "reg_ok f' s'"
    and others: "\<And>t'. t' < length ls \<Longrightarrow> t' \<noteq> t \<Longrightarrow>
        ((m s' = Some t') = (m s = Some t')) \<and> (reg_ok (ls ! t') s \<longrightarrow> reg_ok (ls ! t') s')"
    and sleepers: "\<And>t'. t' \<in> cv s' \<Longrightarrow> (t' = t \<and> asleep f') \<or> (t' \<noteq> t \<and> t' \<in> cv s)"
  shows "sem_inv (ls[t := f'], u', s')"
proof (rule sem_invI)
  show "0 \<le> count s'" by (rule nn)
next
  fix t' assume "t' < length (ls[t := f'])"
  then have lt': "t' < length ls" by simp
  show "holds_m (ls[t := f'] ! t') \<longleftrightarrow> m s' = Some t'"
  proof (cases "t' = t")
    case True
    then show ?thesis using me(1) lt by simp
  next
    case False
    then show ?thesis using others[OF lt' False] sem_invD(2)[OF inv lt'] by simp
  qed
  show "reg_ok (ls[t := f'] ! t') s'"
  proof (cases "t' = t")
    case True
    then show ?thesis using me(2) lt by simp
  next
    case False
    then show ?thesis using others[OF lt' False] sem_invD(3)[OF inv lt'] by simp
  qed
next
  fix t' assume "t' \<in> cv s'"
  from sleepers[OF this] show "t' < length (ls[t := f']) \<and> asleep (ls[t := f'] ! t')"
  proof
    assume "t' = t \<and> asleep f'"
    then show ?thesis using lt by simp
  next
    assume h: "t' \<noteq> t \<and> t' \<in> cv s"
    then show ?thesis using sem_invD(4)[OF inv, of t'] by simp
  qed
qed

lemma sem_inv_step:
  assumes inv: "sem_inv c" and st: "sys_step prog e c = Step c'"
  shows "sem_inv c'"
proof -
  obtain ls u s where c: "c = (ls, u, s)" by (cases c)
  note inv' = inv[unfolded c]
  note nn = sem_invD(1)[OF inv'] and own = sem_invD(2)[OF inv'] and reg = sem_invD(3)[OF inv']
    and slp = sem_invD(4)[OF inv']
  from st[unfolded c] show ?thesis
  proof (cases rule: sys_step_cases)
    case (wake t)
    show ?thesis unfolding wake(5)
    proof (rule sem_invI)
      fix t' assume "t' < length ls"
      then show "holds_m (ls ! t') = (m (s\<lparr>cv := cv s - {t}\<rparr>) = Some t')"
        and "reg_ok (ls ! t') (s\<lparr>cv := cv s - {t}\<rparr>)"
        using own[of t'] reg[of t'] by simp_all
    qed (use nn slp in auto)
  next
    case (run t ch f' u' s')
    note lt = \<open>t < length ls\<close>
    have awake: "t \<notin> cv s" if "\<not> asleep (ls ! t)"
      using slp[of t] that by blast
    have upd: "sem_inv c'"
      if "0 \<le> count s'" "holds_m f' \<longleftrightarrow> m s' = Some t" "reg_ok f' s'"
        "\<And>t'. t' < length ls \<Longrightarrow> t' \<noteq> t \<Longrightarrow>
          ((m s' = Some t') = (m s = Some t')) \<and> (reg_ok (ls ! t') s \<longrightarrow> reg_ok (ls ! t') s')"
        "\<And>t'. t' \<in> cv s' \<Longrightarrow> (t' = t \<and> asleep f') \<or> (t' \<noteq> t \<and> t' \<in> cv s)"
      unfolding run(4) using inv' lt that by (rule sem_inv_update)
    have same: "sem_inv c'"
      if "s' = s" "holds_m f' \<longleftrightarrow> holds_m (ls ! t)" "reg_ok f' s" "\<not> asleep (ls ! t) \<or> t \<notin> cv s"
    proof (rule upd)
      show "holds_m f' \<longleftrightarrow> m s' = Some t" using that own[OF lt] by simp
      show "\<And>t'. t' \<in> cv s' \<Longrightarrow> (t' = t \<and> asleep f') \<or> (t' \<noteq> t \<and> t' \<in> cv s)"
        using that awake by auto
    qed (use that nn in simp_all)
    from run(3) show ?thesis
    proof (cases rule: thread_step_cases)
      case (local l l')
      then show ?thesis by (intro same) simp_all
    next
      case (callw l l')
      then show ?thesis by (intro same) simp_all
    next
      case (callp l l')
      then show ?thesis by (intro same) simp_all
    next
      case (wait p l r)
      from wait(2) show ?thesis
      proof (cases rule: semc_wait_step_cases)
        case WLock
        show ?thesis
        proof (rule upd)
          fix t' assume "t' < length ls" "t' \<noteq> t"
          then show "((m s' = Some t') = (m s = Some t')) \<and> (reg_ok (ls ! t') s \<longrightarrow> reg_ok (ls ! t') s')"
            using WLock by simp
        next
          fix t' assume "t' \<in> cv s'"
          then show "(t' = t \<and> asleep f') \<or> (t' \<noteq> t \<and> t' \<in> cv s)"
            using WLock wait(1) awake by auto
        qed (use WLock wait nn in simp_all)
      next
        case WTest0
        with wait show ?thesis by (intro same) simp_all
      next
        case WTest1
        with wait show ?thesis by (intro same) simp_all
      next
        case WCondWait
        show ?thesis
        proof (rule upd)
          fix t' assume "t' < length ls" "t' \<noteq> t"
          then show "((m s' = Some t') = (m s = Some t')) \<and> (reg_ok (ls ! t') s \<longrightarrow> reg_ok (ls ! t') s')"
            using WCondWait by simp
        next
          fix t' assume "t' \<in> cv s'"
          then show "(t' = t \<and> asleep f') \<or> (t' \<noteq> t \<and> t' \<in> cv s)"
            using WCondWait wait(1,4) by auto
        qed (use WCondWait wait nn in simp_all)
      next
        case WSleep
        with wait show ?thesis by (intro same) simp_all
      next
        case WReacq
        show ?thesis
        proof (rule upd)
          fix t' assume "t' < length ls" "t' \<noteq> t"
          then show "((m s' = Some t') = (m s = Some t')) \<and> (reg_ok (ls ! t') s \<longrightarrow> reg_ok (ls ! t') s')"
            using WReacq by simp
        next
          fix t' assume "t' \<in> cv s'"
          then show "(t' = t \<and> asleep f') \<or> (t' \<noteq> t \<and> t' \<in> cv s)"
            using WReacq wait(1) awake by auto
        qed (use WReacq wait nn in simp_all)
      next
        case WLoad
        with wait reg[OF lt] show ?thesis by (intro same) simp_all
      next
        case (WStore x)
        from reg[OF lt] wait(1) WStore have x: "x = count s" "count s \<noteq> 0" by simp_all
        show ?thesis
        proof (rule upd)
          fix t' assume h: "t' < length ls" "t' \<noteq> t"
          have "\<not> holds_m (ls ! t')" using own[OF h(1)] own[OF lt] wait(1) WStore h(2) by simp
          then show "((m s' = Some t') = (m s = Some t')) \<and> (reg_ok (ls ! t') s \<longrightarrow> reg_ok (ls ! t') s')"
            using WStore by (simp add: reg_ok_free)
        next
          fix t' assume "t' \<in> cv s'"
          then show "(t' = t \<and> asleep f') \<or> (t' \<noteq> t \<and> t' \<in> cv s)"
            using WStore wait(1) awake by auto
        next
          show "holds_m f' \<longleftrightarrow> m s' = Some t"
            using WStore wait own[OF lt] by simp
        qed (use WStore wait nn x in simp_all)
      next
        case WUnlock
        show ?thesis
        proof (rule upd)
          fix t' assume "t' < length ls" "t' \<noteq> t"
          then show "((m s' = Some t') = (m s = Some t')) \<and> (reg_ok (ls ! t') s \<longrightarrow> reg_ok (ls ! t') s')"
            using WUnlock by simp
        next
          fix t' assume "t' \<in> cv s'"
          then show "(t' = t \<and> asleep f') \<or> (t' \<noteq> t \<and> t' \<in> cv s)"
            using WUnlock wait(1) awake by auto
        qed (use WUnlock wait nn in simp_all)
      qed
    next
      case (post p l r)
      from post(2) show ?thesis
      proof (cases rule: semc_post_step_cases)
        case PLock
        show ?thesis
        proof (rule upd)
          fix t' assume "t' < length ls" "t' \<noteq> t"
          then show "((m s' = Some t') = (m s = Some t')) \<and> (reg_ok (ls ! t') s \<longrightarrow> reg_ok (ls ! t') s')"
            using PLock by simp
        next
          fix t' assume "t' \<in> cv s'"
          then show "(t' = t \<and> asleep f') \<or> (t' \<noteq> t \<and> t' \<in> cv s)"
            using PLock post(1) awake by auto
        qed (use PLock post nn in simp_all)
      next
        case PLoad
        with post show ?thesis by (intro same) simp_all
      next
        case (PStore x)
        from reg[OF lt] post(1) PStore have x: "x = count s" by simp
        show ?thesis
        proof (rule upd)
          fix t' assume h: "t' < length ls" "t' \<noteq> t"
          have "\<not> holds_m (ls ! t')" using own[OF h(1)] own[OF lt] post(1) PStore h(2) by simp
          then show "((m s' = Some t') = (m s = Some t')) \<and> (reg_ok (ls ! t') s \<longrightarrow> reg_ok (ls ! t') s')"
            using PStore by (simp add: reg_ok_free)
        next
          fix t' assume "t' \<in> cv s'"
          then show "(t' = t \<and> asleep f') \<or> (t' \<noteq> t \<and> t' \<in> cv s)"
            using PStore post(1) awake by auto
        next
          show "holds_m f' \<longleftrightarrow> m s' = Some t"
            using PStore post own[OF lt] by simp
        qed (use PStore post nn x in simp_all)
      next
        case PSignal0
        with post show ?thesis by (intro same) simp_all
      next
        case PSignal1
        show ?thesis
        proof (rule upd)
          fix t' assume "t' < length ls" "t' \<noteq> t"
          then show "((m s' = Some t') = (m s = Some t')) \<and> (reg_ok (ls ! t') s \<longrightarrow> reg_ok (ls ! t') s')"
            using PSignal1 by simp
        next
          fix t' assume "t' \<in> cv s'"
          then show "(t' = t \<and> asleep f') \<or> (t' \<noteq> t \<and> t' \<in> cv s)"
            using PSignal1 post(1) awake by auto
        next
          show "holds_m f' \<longleftrightarrow> m s' = Some t"
            using PSignal1 post own[OF lt] by simp
        qed (use PSignal1 post nn in simp_all)
      next
        case PUnlock
        show ?thesis
        proof (rule upd)
          fix t' assume "t' < length ls" "t' \<noteq> t"
          then show "((m s' = Some t') = (m s = Some t')) \<and> (reg_ok (ls ! t') s \<longrightarrow> reg_ok (ls ! t') s')"
            using PUnlock by simp
        next
          fix t' assume "t' \<in> cv s'"
          then show "(t' = t \<and> asleep f') \<or> (t' \<noteq> t \<and> t' \<in> cv s)"
            using PUnlock post(1) awake by auto
        qed (use PUnlock post nn in simp_all)
      qed
    qed
  qed
qed

lemma sem_inv_spawn: "0 \<le> n \<Longrightarrow> sem_inv (spawn W l0 u (semc_init n))"
  by (simp add: sem_inv_def spawn_def semc_init_def)

lemma sem_inv_run:
  assumes "sem_inv c" "run prog es c = Step c'"
  shows "sem_inv c'"
  using assms(2,1) by (rule run_invariant) (rule sem_inv_step)

lemma sys_step_length:
  "sys_step prog e (ls, u, s) = Step (ls', u', s') \<Longrightarrow> length ls' = length ls"
  by (erule sys_step_cases) auto

lemma run_length:
  "run prog es (ls, u, s) = Step (ls', u', s') \<Longrightarrow> length ls' = length ls"
proof (induction es arbitrary: ls u s)
  case Nil
  then show ?case by simp
next
  case (Cons e es)
  then obtain c where c: "sys_step prog e (ls, u, s) = Step c" "run prog es c = Step (ls', u', s')"
    by (auto split: step.splits)
  obtain ls1 u1 s1 where c1: "c = (ls1, u1, s1)" by (cases c)
  from c c1 Cons.IH[of ls1 u1 s1] sys_step_length[of prog e ls u s ls1 u1 s1] show ?case by simp
qed

text \<open>Local invariants.\<close>

lemma local_pres_step:
  assumes pres: "local_pres prog ok"
    and inv: "list_all (\<lambda>f. ok (local_of f)) (fst c)"
    and st: "sys_step prog e c = Step c'"
  shows "list_all (\<lambda>f. ok (local_of f)) (fst c')"
proof -
  obtain ls u s where c: "c = (ls, u, s)" by (cases c)
  from inv c have all: "\<And>t. t < length ls \<Longrightarrow> ok (local_of (ls ! t))"
    by (simp add: list_all_length)
  have upd: "list_all (\<lambda>f. ok (local_of f)) (ls[t := f'])" if ok': "ok (local_of f')" for t f'
    unfolding list_all_length
  proof (intro allI impI)
    fix n assume "n < length (ls[t := f'])"
    then have n: "n < length ls" by simp
    show "ok (local_of (ls[t := f'] ! n))"
    proof (cases "n = t")
      case True
      then show ?thesis using n ok' by simp
    next
      case False
      then show ?thesis using all[OF n] by simp
    qed
  qed
  from st[unfolded c] show ?thesis
  proof (cases rule: sys_step_cases)
    case (wake t)
    then show ?thesis using inv c by simp
  next
    case (run t ch f' u' s')
    from pres have p: "\<And>l. ok l \<Longrightarrow>
        (case prog t l u of Local l' u' \<Rightarrow> ok l' | CallWait l' \<Rightarrow> ok l' | CallPost l' \<Rightarrow> ok l' | _ \<Rightarrow> True)"
      unfolding local_pres_def by blast
    from run(3) have "ok (local_of f')"
    proof (cases rule: thread_step_cases)
      case (local l l')
      then show ?thesis using p[of l] all[OF run(2)] by simp
    next
      case (callw l l')
      then show ?thesis using p[of l] all[OF run(2)] by simp
    next
      case (callp l l')
      then show ?thesis using p[of l] all[OF run(2)] by simp
    next
      case (wait p l r)
      then show ?thesis using all[OF run(2)] by (cases r) simp_all
    next
      case (post p l r)
      then show ?thesis using all[OF run(2)] by (cases r) simp_all
    qed
    then show ?thesis unfolding run(4) by (simp add: upd)
  qed
qed

lemma local_pres_run:
  assumes "local_pres prog ok" "run prog es c = Step c'" "list_all (\<lambda>f. ok (local_of f)) (fst c)"
  shows "list_all (\<lambda>f. ok (local_of f)) (fst c')"
  using assms(2,3) by (rule run_invariant) (rule local_pres_step[OF assms(1)])

text \<open>Counting the frames with a property.\<close>

lemma length_filter_update:
  assumes "t < length ls"
  shows "int (length (filter P (ls[t := x]))) =
         int (length (filter P ls)) - of_bool (P (ls ! t)) + of_bool (P x)"
proof -
  let ?a = "take t ls" and ?b = "drop (Suc t) ls"
  have "int (length (filter P ls)) = int (length (filter P (?a @ ls ! t # ?b)))"
    by (rule arg_cong[where f = "\<lambda>z. int (length (filter P z))", OF id_take_nth_drop[OF assms]])
  also have "\<dots> = int (length (filter P ?a)) + of_bool (P (ls ! t)) + int (length (filter P ?b))"
    by simp
  finally have 1: "int (length (filter P ls)) =
      int (length (filter P ?a)) + of_bool (P (ls ! t)) + int (length (filter P ?b))" .
  have "int (length (filter P (ls[t := x]))) = int (length (filter P (?a @ x # ?b)))"
    by (rule arg_cong[where f = "\<lambda>z. int (length (filter P z))", OF upd_conv_take_nth_drop[OF assms]])
  also have "\<dots> = int (length (filter P ?a)) + of_bool (P x) + int (length (filter P ?b))"
    by simp
  finally show ?thesis using 1 by simp
qed

lemma two_in_filter:
  assumes "t < length ls" "t' < length ls" "t \<noteq> t'" "P (ls ! t)" "P (ls ! t')"
  shows "2 \<le> length (filter P ls)"
proof -
  have "{t, t'} \<subseteq> {k. k < length ls \<and> P (ls ! k)}" using assms by auto
  then have "card {t, t'} \<le> card {k. k < length ls \<and> P (ls ! k)}"
    by (intro card_mono) auto
  then show ?thesis using assms(3) by (simp add: length_filter_conv_card)
qed

lemma permit_inv_step:
  assumes pr: "paired prog perm" and sem: "sem_inv c" and inv: "permit_inv N perm c"
    and st: "sys_step prog e c = Step c'"
  shows "permit_inv N perm c'"
proof -
  obtain ls u s where c: "c = (ls, u, s)" by (cases c)
  from inv c have total: "count s + int (permits_held perm ls) = N"
    and res: "\<And>t. t < length ls \<Longrightarrow> resume_ok perm (ls ! t)"
    by (simp_all add: permit_inv_def list_all_length)
  note reg = sem_invD(3)[OF sem[unfolded c]]
  from st[unfolded c] show ?thesis
  proof (cases rule: sys_step_cases)
    case (wake t)
    then show ?thesis using inv c by (simp add: permit_inv_def)
  next
    case (run t ch f' u' s')
    note lt = \<open>t < length ls\<close>
    have upd: "permit_inv N perm c'"
      if "count s' + of_bool (has_permit perm f') = count s + of_bool (has_permit perm (ls ! t))"
        and "resume_ok perm f'"
    proof -
      have "int (permits_held perm (ls[t := f'])) =
          int (permits_held perm ls) - of_bool (has_permit perm (ls ! t)) + of_bool (has_permit perm f')"
        unfolding permits_held_def by (rule length_filter_update[OF lt])
      then have "count s' + int (permits_held perm (ls[t := f'])) = N"
        using that(1) total by simp
      moreover have "list_all (resume_ok perm) (ls[t := f'])"
        unfolding list_all_length
      proof (intro allI impI)
        fix n assume "n < length (ls[t := f'])"
        then have n: "n < length ls" by simp
        show "resume_ok perm (ls[t := f'] ! n)"
          using res[OF n] that(2) n by (cases "n = t") simp_all
      qed
      ultimately show ?thesis unfolding run(4) by (simp add: permit_inv_def)
    qed
    from pr have p: "\<And>l. (case prog t l u of
           Local l' u' \<Rightarrow> perm l' = perm l
         | CallWait l' \<Rightarrow> \<not> perm l \<and> perm l'
         | CallPost l' \<Rightarrow> perm l \<and> \<not> perm l'
         | _ \<Rightarrow> True)"
      unfolding paired_def by blast
    from run(3) show ?thesis
    proof (cases rule: thread_step_cases)
      case (local l l')
      then show ?thesis using p[of l] by (intro upd) simp_all
    next
      case (callw l l')
      then show ?thesis using p[of l] by (intro upd) simp_all
    next
      case (callp l l')
      then show ?thesis using p[of l] by (intro upd) simp_all
    next
      case (wait p l r)
      from wait(2) show ?thesis
      proof (cases rule: semc_wait_step_cases)
        case (WStore x)
        then show ?thesis using wait(1,4) reg[OF lt] res[OF lt] by (intro upd) simp_all
      next
        case WUnlock
        then show ?thesis using wait(1,4) res[OF lt] by (intro upd) simp_all
      qed (use wait(1,4) res[OF lt] in \<open>(intro upd; simp)+\<close>)
    next
      case (post p l r)
      from post(2) show ?thesis
      proof (cases rule: semc_post_step_cases)
        case (PStore x)
        then show ?thesis using post(1,4) reg[OF lt] res[OF lt] by (intro upd) simp_all
      next
        case PUnlock
        then show ?thesis using post(1,4) res[OF lt] by (intro upd) simp_all
      qed (use post(1,4) res[OF lt] in \<open>(intro upd; simp)+\<close>)
    qed
  qed
qed

lemma permit_inv_spawn:
  "\<not> perm l0 \<Longrightarrow> permit_inv n perm (spawn W l0 u (semc_init n))"
  by (simp add: permit_inv_def spawn_def semc_init_def permits_held_def list_all_length)

lemma sem_permit_run:
  assumes "paired prog perm" "run prog es c = Step c'" "sem_inv c \<and> permit_inv N perm c"
  shows "sem_inv c' \<and> permit_inv N perm c'"
  using assms(2,3)
  by (rule run_invariant) (auto intro: sem_inv_step permit_inv_step[OF assms(1)])

text \<open>No more threads hold permits than there are.\<close>

lemma permits_bound:
  assumes "sem_inv (ls, u, s)" "permit_inv N perm (ls, u, s)"
  shows "int (permits_held perm ls) \<le> N"
  using assms sem_invD(1)[OF assms(1)] by (simp add: permit_inv_def)

lemma one_permit_exclusive:
  assumes "sem_inv (ls, u, s)" "permit_inv 1 perm (ls, u, s)"
    and "t < length ls" "t' < length ls" "has_permit perm (ls ! t)" "has_permit perm (ls ! t')"
  shows "t = t'"
proof (rule ccontr)
  assume "t \<noteq> t'"
  with assms(3-6) have "2 \<le> permits_held perm ls"
    unfolding permits_held_def by (intro two_in_filter[of t _ t']) auto
  with permits_bound[OF assms(1,2)] show False by simp
qed

lemma sum_list_map_update:
  fixes g :: "'a \<Rightarrow> int"
  assumes "t < length ls"
  shows "sum_list (map g (ls[t := x])) = sum_list (map g ls) - g (ls ! t) + g x"
proof -
  let ?a = "take t ls" and ?b = "drop (Suc t) ls"
  have "sum_list (map g ls) = sum_list (map g (?a @ ls ! t # ?b))"
    by (rule arg_cong[where f = "\<lambda>z. sum_list (map g z)", OF id_take_nth_drop[OF assms]])
  also have "\<dots> = sum_list (map g ?a) + g (ls ! t) + sum_list (map g ?b)"
    by simp
  finally have 1: "sum_list (map g ls) = sum_list (map g ?a) + g (ls ! t) + sum_list (map g ?b)" .
  have "sum_list (map g (ls[t := x])) = sum_list (map g (?a @ x # ?b))"
    by (rule arg_cong[where f = "\<lambda>z. sum_list (map g z)", OF upd_conv_take_nth_drop[OF assms]])
  also have "\<dots> = sum_list (map g ?a) + g x + sum_list (map g ?b)"
    by simp
  finally show ?thesis using 1 by simp
qed

lemma counter_inv_step:
  assumes gd: "guarded prog pend contrib" and ex: "exclusive pend (fst c)"
    and inv: "counter_inv pend contrib c"
    and st: "sys_step prog e c = Step c'"
  shows "counter_inv pend contrib c'"
proof -
  obtain ls u s where c: "c = (ls, u, s)" by (cases c)
  from inv c have total: "counter u = sum_list (map (\<lambda>f. contrib (local_of f)) ls)"
    and calm: "\<And>t. t < length ls \<Longrightarrow> calm pend (ls ! t)"
    and val: "\<And>t. t < length ls \<Longrightarrow> pending pend (ls ! t) \<Longrightarrow> tmp (local_of (ls ! t)) = counter u"
    by (simp_all add: counter_inv_def)
  from ex c have excl: "\<And>t t'. t < length ls \<Longrightarrow> t' < length ls \<Longrightarrow> pending pend (ls ! t)
      \<Longrightarrow> pending pend (ls ! t') \<Longrightarrow> t = t'"
    by (simp add: exclusive_def)
  from st[unfolded c] show ?thesis
  proof (cases rule: sys_step_cases)
    case (wake t)
    then show ?thesis using inv c by (simp add: counter_inv_def)
  next
    case (run t ch f' u' s')
    note lt = \<open>t < length ls\<close>
    text \<open>The stepping thread keeps its part; the others keep theirs when the counter is
      unchanged, or when none of them is between a read and a write.\<close>
    have upd: "counter_inv pend contrib c'"
      if "counter u' = counter u + contrib (local_of f') - contrib (local_of (ls ! t))"
        and "calm pend f'" and "pending pend f' \<longrightarrow> tmp (local_of f') = counter u'"
        and "counter u' = counter u \<or> pending pend (ls ! t)"
    proof -
      have "sum_list (map (\<lambda>f. contrib (local_of f)) (ls[t := f'])) = counter u'"
        using that(1) total by (simp add: sum_list_map_update[OF lt])
      moreover have "calm pend (ls[t := f'] ! n)
          \<and> (pending pend (ls[t := f'] ! n) \<longrightarrow> tmp (local_of (ls[t := f'] ! n)) = counter u')"
        if n: "n < length ls" for n
      proof (cases "n = t")
        case True
        then show ?thesis using n \<open>calm pend f'\<close>
            \<open>pending pend f' \<longrightarrow> tmp (local_of f') = counter u'\<close> by simp
      next
        case False
        have "tmp (local_of (ls ! n)) = counter u'" if pn: "pending pend (ls ! n)"
        proof -
          from \<open>counter u' = counter u \<or> pending pend (ls ! t)\<close> show ?thesis
          proof
            assume "counter u' = counter u"
            then show ?thesis using val[OF n pn] by simp
          next
            assume "pending pend (ls ! t)"
            from excl[OF n lt pn this] False show ?thesis by simp
          qed
        qed
        then show ?thesis using False calm[OF n] by simp
      qed
      ultimately show ?thesis unfolding run(4) by (simp add: counter_inv_def)
    qed
    from gd have g: "\<And>l. (case prog t l u of
           Local l' u' \<Rightarrow>
             (if pend l \<and> \<not> pend l'
              then counter u' = tmp l + 1 \<and> contrib l' = contrib l + 1
              else counter u' = counter u \<and> contrib l' = contrib l
                \<and> (pend l' \<longrightarrow> tmp l' = (if pend l then tmp l else counter u)))
         | CallWait l' \<Rightarrow> \<not> pend l \<and> \<not> pend l' \<and> contrib l' = contrib l
         | CallPost l' \<Rightarrow> \<not> pend l \<and> \<not> pend l' \<and> contrib l' = contrib l
         | _ \<Rightarrow> True)"
      unfolding guarded_def by blast
    from run(3) show ?thesis
    proof (cases rule: thread_step_cases)
      case (local l l')
      show ?thesis
      proof (cases "pend l \<and> \<not> pend l'")
        case True
        then show ?thesis using local g[of l] val[OF lt] by (intro upd) simp_all
      next
        case False
        then show ?thesis using local g[of l] val[OF lt] by (intro upd) auto
      qed
    next
      case (callw l l')
      then show ?thesis using g[of l] by (intro upd) simp_all
    next
      case (callp l l')
      then show ?thesis using g[of l] by (intro upd) simp_all
    next
      case (wait p l r)
      then show ?thesis using calm[OF lt] by (cases r) (auto intro!: upd)
    next
      case (post p l r)
      then show ?thesis using calm[OF lt] by (cases r) (auto intro!: upd)
    qed
  qed
qed

lemma guarded_run:
  assumes gd: "guarded prog pend contrib"
    and Jex: "\<And>c. J c \<Longrightarrow> exclusive pend (fst c)"
    and Jstep: "\<And>e c c'. J c \<Longrightarrow> sys_step prog e c = Step c' \<Longrightarrow> J c'"
    and r: "run prog es c = Step c'"
    and init: "J c \<and> counter_inv pend contrib c"
  shows "J c' \<and> counter_inv pend contrib c'"
  using r init
proof (rule run_invariant)
  fix e c c'
  assume "J c \<and> counter_inv pend contrib c" "sys_step prog e c = Step c'"
  then show "J c' \<and> counter_inv pend contrib c'"
    using Jstep[of c e c'] counter_inv_step[OF gd Jex, of c e c'] by blast
qed

lemma counter_total:
  assumes "counter_inv pend contrib (ls, u, s)"
    and "\<And>t. t < length ls \<Longrightarrow> contrib (local_of (ls ! t)) = k"
  shows "counter u = int (length ls) * k"
proof -
  have "map (\<lambda>f. contrib (local_of f)) ls = replicate (length ls) k"
    using assms(2) by (intro nth_equalityI) simp_all
  then have "sum_list (map (\<lambda>f. contrib (local_of f)) ls) = int (length ls) * k"
    by (simp add: sum_list_replicate)
  with assms(1) show ?thesis by (simp add: counter_inv_def)
qed

lemma counter_inv_spawn:
  "\<not> pend l0 \<Longrightarrow> contrib l0 = 0 \<Longrightarrow>
   counter_inv pend contrib (spawn W l0 \<lparr>counter = 0, g_lock = None\<rparr> s)"
  by (simp add: counter_inv_def spawn_def sum_list_replicate)

text \<open>The binary semaphore worker.\<close>

lemma bin_guarded: "guarded (inc_with_sem_binary K) bin_pend bin_contrib"
  unfolding guarded_def
  by (auto simp: inc_with_sem_binary_def bin_pend_def bin_contrib_def split: bin_pc.splits)

lemma bin_paired: "paired (inc_with_sem_binary K) bin_perm"
  unfolding paired_def
  by (auto simp: inc_with_sem_binary_def bin_perm_def split: bin_pc.splits)

lemma bin_local: "local_pres (inc_with_sem_binary K) (bin_ok K)"
  unfolding local_pres_def
  by (auto simp: inc_with_sem_binary_def bin_ok_def split: bin_pc.splits)

lemma pending_has_permit:
  assumes "\<And>l. pend l \<Longrightarrow> perm l" "pending pend f"
  shows "has_permit perm f"
  using assms by (cases f) auto

lemma one_permit_exclusive_pend:
  assumes "\<And>l. pend l \<Longrightarrow> perm l" "sem_inv c \<and> permit_inv 1 perm c"
  shows "exclusive pend (fst c)"
proof -
  obtain ls u s where c: "c = (ls, u, s)" by (cases c)
  show ?thesis
    unfolding exclusive_def c fst_conv
  proof (intro allI impI)
    fix t t' assume "t < length ls" "t' < length ls" "pending pend (ls ! t) \<and> pending pend (ls ! t')"
    then show "t = t'"
      using assms(2)[unfolded c] pending_has_permit[of pend perm, OF assms(1)]
      by (intro one_permit_exclusive[of ls u s perm t t']) auto
  qed
qed

lemma returned_User:
  "returned prog u (t, f) \<longleftrightarrow> (\<exists>l. f = User l \<and> prog t l u = Finished)"
  by (cases f) (auto split: action.splits)

text \<open>What the guarded counter is once all workers have returned.\<close>

lemma guarded_exact:
  assumes gd: "guarded prog pend contrib"
    and lp: "local_pres prog ok"
    and Jex: "\<And>c. J c \<Longrightarrow> exclusive pend (fst c)"
    and Jstep: "\<And>e c c'. J c \<Longrightarrow> sys_step prog e c = Step c' \<Longrightarrow> J c'"
    and J0: "J (spawn W l0 \<lparr>counter = 0, g_lock = None\<rparr> s0)"
    and l0: "\<not> pend l0" "contrib l0 = 0" "ok l0"
    and fin: "\<And>t l u. ok l \<Longrightarrow> prog t l u = Finished \<Longrightarrow> contrib l = int K"
    and r: "run prog es (spawn W l0 \<lparr>counter = 0, g_lock = None\<rparr> s0) = Step (ls, u, s)"
    and j: "joined prog (ls, u, s)"
  shows "counter u = int (W * K)"
proof -
  let ?c0 = "spawn W l0 \<lparr>counter = 0, g_lock = None\<rparr> s0"
  have "J (ls, u, s) \<and> counter_inv pend contrib (ls, u, s)"
    using gd Jex Jstep r
  proof (rule guarded_run)
    show "J ?c0 \<and> counter_inv pend contrib ?c0"
      using J0 l0 by (simp add: counter_inv_spawn)
  qed
  then have ci: "counter_inv pend contrib (ls, u, s)" ..
  have "list_all (\<lambda>f. ok (local_of f)) (fst (ls, u, s))"
    using lp r by (rule local_pres_run) (simp add: spawn_def l0 list_all_length)
  then have ok: "\<And>t. t < length ls \<Longrightarrow> ok (local_of (ls ! t))"
    by (simp add: list_all_length)
  have len: "length ls = W"
    using run_length[OF r[unfolded spawn_def]] by simp
  have "contrib (local_of (ls ! t)) = int K" if "t < length ls" for t
  proof -
    from j[unfolded joined_iff] that have "returned prog u (t, ls ! t)" by blast
    then obtain l where "ls ! t = User l" "prog t l u = Finished"
      unfolding returned_User by blast
    with ok[OF that] fin show ?thesis by simp
  qed
  with ci have "counter u = int (length ls) * int K" by (rule counter_total)
  then show ?thesis using len by simp
qed

text \<open>The binary semaphore worker.\<close>

lemma bin_exact:
  assumes "run (inc_with_sem_binary K) es (counter_scenario W BTest 1) = Step (ls, u, s)"
    and "joined (inc_with_sem_binary K) (ls, u, s)"
  shows "counter u = int (W * K)"
proof (rule guarded_exact[where J = "\<lambda>c. sem_inv c \<and> permit_inv 1 bin_perm c" and ok = "bin_ok K",
      OF bin_guarded bin_local])
  show "run (inc_with_sem_binary K) es
      (spawn W (worker_start BTest) \<lparr>counter = 0, g_lock = None\<rparr> (semc_init 1)) = Step (ls, u, s)"
    using assms(1) by (simp add: counter_scenario_def)
  show "joined (inc_with_sem_binary K) (ls, u, s)" by (rule assms(2))
  show "exclusive bin_pend (fst c)" if "sem_inv c \<and> permit_inv 1 bin_perm c" for c
    using _ that by (rule one_permit_exclusive_pend) (simp add: bin_pend_def bin_perm_def)
  show "sem_inv c' \<and> permit_inv 1 bin_perm c'"
    if "sem_inv c \<and> permit_inv 1 bin_perm c" "sys_step (inc_with_sem_binary K) e c = Step c'"
    for e c c'
    using that by (auto intro: sem_inv_step permit_inv_step[OF bin_paired])
  show "sem_inv (spawn W (worker_start BTest) \<lparr>counter = 0, g_lock = None\<rparr> (semc_init 1))
      \<and> permit_inv 1 bin_perm (spawn W (worker_start BTest) \<lparr>counter = 0, g_lock = None\<rparr> (semc_init 1))"
    by (simp add: sem_inv_spawn permit_inv_spawn bin_perm_def worker_start_def)
  show "\<not> bin_pend (worker_start BTest)" "bin_contrib (worker_start BTest) = 0"
    "bin_ok K (worker_start BTest)"
    by (simp_all add: bin_pend_def bin_contrib_def bin_ok_def worker_start_def)
  show "bin_contrib l = int K" if "bin_ok K l" "inc_with_sem_binary K t l u = Finished" for t l u
    using that
    by (auto simp: inc_with_sem_binary_def bin_ok_def bin_contrib_def split: bin_pc.splits if_splits)
qed

text \<open>The mutex worker.\<close>

lemma lock_guarded: "guarded (inc_with_lock K) lock_pend lock_contrib"
  unfolding guarded_def
  by (auto simp: inc_with_lock_def lock_pend_def lock_contrib_def mutex_lock_def mutex_unlock_def
      split: lock_pc.splits)

lemma lock_local: "local_pres (inc_with_lock K) (lock_ok K)"
  unfolding local_pres_def
  by (auto simp: inc_with_lock_def lock_ok_def mutex_lock_def mutex_unlock_def
      split: lock_pc.splits)

lemma lock_no_calls:
  "inc_with_lock K t l u \<noteq> CallWait l'" "inc_with_lock K t l u \<noteq> CallPost l'"
  by (auto simp: inc_with_lock_def mutex_lock_def mutex_unlock_def split: lock_pc.splits)

lemma lock_step_facts:
  assumes "inc_with_lock K t l u = Local l' u'" "lock_held l \<longleftrightarrow> g_lock u = Some t"
  shows "lock_held l' \<longleftrightarrow> g_lock u' = Some t"
    and "\<And>t'. t' \<noteq> t \<Longrightarrow> (g_lock u' = Some t') = (g_lock u = Some t')"
  using assms
  by (auto simp: inc_with_lock_def lock_held_def mutex_lock_def mutex_unlock_def
      split: lock_pc.splits if_splits)

lemma lock_invD:
  assumes "lock_inv (ls, u, s)" "t < length ls"
  obtains l where "ls ! t = User l" "lock_held l \<longleftrightarrow> g_lock u = Some t"
  using assms unfolding lock_inv_def by (cases "ls ! t") auto

lemma lock_inv_step:
  assumes inv: "lock_inv c" and st: "sys_step (inc_with_lock K) e c = Step c'"
  shows "lock_inv c'"
proof -
  obtain ls u s where c: "c = (ls, u, s)" by (cases c)
  note inv' = inv[unfolded c]
  from st[unfolded c] show ?thesis
  proof (cases rule: sys_step_cases)
    case (wake t)
    from inv' wake(2) obtain l where "ls ! t = User l" by (rule lock_invD)
    with wake(3) show ?thesis by simp
  next
    case (run t ch f' u' s')
    from inv' run(2) obtain l where l: "ls ! t = User l" "lock_held l \<longleftrightarrow> g_lock u = Some t"
      by (rule lock_invD)
    from run(3) show ?thesis
    proof (cases rule: thread_step_cases)
      case (local l0 l')
      with l have step: "inc_with_lock K t l u = Local l' u'" by simp
      note facts = lock_step_facts[OF step l(2)]
      show ?thesis
        unfolding run(4) lock_inv_def prod.case
      proof (intro allI impI)
        fix n assume "n < length (ls[t := f'])"
        then have n: "n < length ls" by simp
        show "case ls[t := f'] ! n of User l \<Rightarrow> lock_held l = (g_lock u' = Some n) | _ \<Rightarrow> False"
        proof (cases "n = t")
          case True
          then show ?thesis using n local(3) facts(1) by simp
        next
          case False
          from inv' n obtain k where "ls ! n = User k" "lock_held k \<longleftrightarrow> g_lock u = Some n"
            by (rule lock_invD)
          then show ?thesis using False facts(2)[OF False] by simp
        qed
      qed
    next
      case (callw l0 l')
      with l show ?thesis using lock_no_calls(1)[of K t l u l'] by simp
    next
      case (callp l0 l')
      with l show ?thesis using lock_no_calls(2)[of K t l u l'] by simp
    next
      case (wait p l0 r)
      with l show ?thesis by simp
    next
      case (post p l0 r)
      with l show ?thesis by simp
    qed
  qed
qed

lemma lock_exclusive:
  assumes "lock_inv c"
  shows "exclusive lock_pend (fst c)"
proof -
  obtain ls u s where c: "c = (ls, u, s)" by (cases c)
  show ?thesis
    unfolding exclusive_def c fst_conv
  proof (intro allI impI)
    fix t t' assume t: "t < length ls" and t': "t' < length ls"
      and p: "pending lock_pend (ls ! t) \<and> pending lock_pend (ls ! t')"
    from assms[unfolded c] t obtain l where l: "ls ! t = User l" "lock_held l \<longleftrightarrow> g_lock u = Some t"
      by (rule lock_invD)
    from assms[unfolded c] t' obtain l' where l': "ls ! t' = User l'" "lock_held l' \<longleftrightarrow> g_lock u = Some t'"
      by (rule lock_invD)
    from p l l' show "t = t'" by (simp add: lock_pend_def lock_held_def)
  qed
qed

lemma lock_exact:
  assumes "run (inc_with_lock K) es (counter_scenario W LTest permits) = Step (ls, u, s)"
    and "joined (inc_with_lock K) (ls, u, s)"
  shows "counter u = int (W * K)"
proof (rule guarded_exact[where J = lock_inv and ok = "lock_ok K", OF lock_guarded lock_local])
  show "run (inc_with_lock K) es
      (spawn W (worker_start LTest) \<lparr>counter = 0, g_lock = None\<rparr> (semc_init permits)) = Step (ls, u, s)"
    using assms(1) by (simp add: counter_scenario_def)
  show "joined (inc_with_lock K) (ls, u, s)" by (rule assms(2))
  show "exclusive lock_pend (fst c)" if "lock_inv c" for c
    using that by (rule lock_exclusive)
  show "lock_inv c'" if "lock_inv c" "sys_step (inc_with_lock K) e c = Step c'" for e c c'
    using that by (rule lock_inv_step)
  show "lock_inv (spawn W (worker_start LTest) \<lparr>counter = 0, g_lock = None\<rparr> (semc_init permits))"
    by (simp add: lock_inv_def spawn_def worker_start_def lock_held_def)
  show "\<not> lock_pend (worker_start LTest)" "lock_contrib (worker_start LTest) = 0"
    "lock_ok K (worker_start LTest)"
    by (simp_all add: lock_pend_def lock_contrib_def lock_ok_def worker_start_def)
  show "lock_contrib l = int K" if "lock_ok K l" "inc_with_lock K t l u = Finished" for t l u
    using that
    by (auto simp: inc_with_lock_def lock_ok_def lock_contrib_def mutex_lock_def mutex_unlock_def
        split: lock_pc.splits if_splits)
qed

lemma increment_with_lock_eq: "increment_with_lock = inc_with_lock"
  by (intro ext) (simp add: increment_with_lock_def inc_with_lock_def)

text \<open>The three-permit worker on a semaphore of one permit.\<close>

lemma three_guarded: "guarded (inc_with_sem_three K) three_pend three_contrib"
  unfolding guarded_def
  by (auto simp: inc_with_sem_three_def three_pend_def three_contrib_def Let_def
      split: three_pc.splits)

lemma three_paired: "paired (inc_with_sem_three K) three_perm"
  unfolding paired_def
  by (auto simp: inc_with_sem_three_def three_perm_def Let_def split: three_pc.splits)

lemma three_local: "local_pres (inc_with_sem_three K) (three_ok K)"
  unfolding local_pres_def
  by (auto simp: inc_with_sem_three_def three_ok_def Let_def split: three_pc.splits)

lemma three_exact_one_permit:
  assumes "run (inc_with_sem_three K) es (counter_scenario W TTest 1) = Step (ls, u, s)"
    and "joined (inc_with_sem_three K) (ls, u, s)"
  shows "counter u = int (W * K)"
proof (rule guarded_exact[where J = "\<lambda>c. sem_inv c \<and> permit_inv 1 three_perm c"
      and ok = "three_ok K", OF three_guarded three_local])
  show "run (inc_with_sem_three K) es
      (spawn W (worker_start TTest) \<lparr>counter = 0, g_lock = None\<rparr> (semc_init 1)) = Step (ls, u, s)"
    using assms(1) by (simp add: counter_scenario_def)
  show "joined (inc_with_sem_three K) (ls, u, s)" by (rule assms(2))
  show "exclusive three_pend (fst c)" if "sem_inv c \<and> permit_inv 1 three_perm c" for c
    using _ that by (rule one_permit_exclusive_pend) (auto simp: three_pend_def three_perm_def)
  show "sem_inv c' \<and> permit_inv 1 three_perm c'"
    if "sem_inv c \<and> permit_inv 1 three_perm c" "sys_step (inc_with_sem_three K) e c = Step c'"
    for e c c'
    using that by (auto intro: sem_inv_step permit_inv_step[OF three_paired])
  show "sem_inv (spawn W (worker_start TTest) \<lparr>counter = 0, g_lock = None\<rparr> (semc_init 1))
      \<and> permit_inv 1 three_perm (spawn W (worker_start TTest) \<lparr>counter = 0, g_lock = None\<rparr> (semc_init 1))"
    by (simp add: sem_inv_spawn permit_inv_spawn three_perm_def worker_start_def)
  show "\<not> three_pend (worker_start TTest)" "three_contrib (worker_start TTest) = 0"
    "three_ok K (worker_start TTest)"
    by (simp_all add: three_pend_def three_contrib_def three_ok_def worker_start_def)
  show "three_contrib l = int K" if "three_ok K l" "inc_with_sem_three K t l u = Finished" for t l u
    using that
    by (auto simp: inc_with_sem_three_def three_ok_def three_contrib_def Let_def
        split: three_pc.splits if_splits)
qed


section \<open>Proofs: the guarded counter workers run to their return\<close>

lemma steps_left_update:
  assumes t: "t < length ls"
    and me: "rank s' t f' < rank s t (ls ! t)"
    and others: "\<And>k. k < length ls \<Longrightarrow> k \<noteq> t \<Longrightarrow> rank s' k (ls ! k) \<le> rank s k (ls ! k)"
  shows "steps_left rank (ls[t := f'], u', s') < steps_left rank (ls, u, s)"
proof -
  have "(\<Sum>k<length ls. rank s' k (ls[t := f'] ! k)) < (\<Sum>k<length ls. rank s k (ls ! k))"
  proof (rule sum_strict_mono_ex1)
    show "finite {..<length ls}" by simp
    show "\<forall>k\<in>{..<length ls}. rank s' k (ls[t := f'] ! k) \<le> rank s k (ls ! k)"
    proof
      fix k assume "k \<in> {..<length ls}"
      then have k: "k < length ls" by simp
      show "rank s' k (ls[t := f'] ! k) \<le> rank s k (ls ! k)"
      proof (cases "k = t")
        case True
        then show ?thesis using me t by simp
      next
        case False
        then show ?thesis using others[OF k False] by simp
      qed
    qed
    show "\<exists>k\<in>{..<length ls}. rank s' k (ls[t := f'] ! k) < rank s k (ls ! k)"
      using t me by (intro bexI[of _ t]) simp_all
  qed
  then show ?thesis by (simp add: steps_left_def)
qed

text \<open>If every state in which some worker has not returned has a step that leaves less
  work, then the workers can all return, from every state.\<close>

lemma progress_run:
  fixes mu :: "'l frame list \<times> 'u \<times> semc \<Rightarrow> nat"
  assumes step: "\<And>c. I c \<Longrightarrow> \<not> joined prog c \<Longrightarrow>
        \<exists>e c'. is_run e \<and> sys_step prog e c = Step c' \<and> mu c' < mu c"
    and pres: "\<And>e c c'. I c \<Longrightarrow> sys_step prog e c = Step c' \<Longrightarrow> I c'"
    and init: "I c"
  shows "\<exists>es c'. list_all is_run es \<and> run prog es c = Step c' \<and> joined prog c'"
  using init
proof (induction "mu c" arbitrary: c rule: less_induct)
  case less
  show ?case
  proof (cases "joined prog c")
    case True
    then have "list_all is_run [] \<and> run prog [] c = Step c \<and> joined prog c" by simp
    then show ?thesis by blast
  next
    case False
    from step[OF less.prems False] obtain e c1 where
      ev: "is_run e" and e: "sys_step prog e c = Step c1" and lt: "mu c1 < mu c" by blast
    from pres[OF less.prems e] have "I c1" .
    from less.hyps[OF lt this] obtain es c' where
      evs: "list_all is_run es" and r: "run prog es c1 = Step c'" and j: "joined prog c'" by blast
    from e r ev evs have "list_all is_run (e # es) \<and> run prog (e # es) c = Step c'" by simp
    with j show ?thesis by blast
  qed
qed

text \<open>No interleaving runs into undefined behaviour if no step from a good state does.\<close>

lemma never_undefined:
  assumes safe: "\<And>e c. I c \<Longrightarrow> sys_step prog e c \<noteq> Undefined"
    and pres: "\<And>e c c'. I c \<Longrightarrow> sys_step prog e c = Step c' \<Longrightarrow> I c'"
    and init: "I c"
  shows "run prog es c \<noteq> Undefined"
  using init
proof (induction es arbitrary: c)
  case Nil
  then show ?case by simp
next
  case (Cons e es)
  show ?case
  proof (cases "sys_step prog e c")
    case NoStep
    then show ?thesis by simp
  next
    case Undefined
    with safe[OF Cons.prems, of e] show ?thesis by simp
  next
    case (Step c1)
    from pres[OF Cons.prems Step] have "I c1" .
    from Cons.IH[OF this] Step show ?thesis by simp
  qed
qed

text \<open>The mutex worker.\<close>

lemma lock_owner_step:
  assumes inv: "lock_owner c" and st: "sys_step (inc_with_lock K) e c = Step c'"
  shows "lock_owner c'"
proof -
  obtain ls u s where c: "c = (ls, u, s)" by (cases c)
  from st[unfolded c] show ?thesis
  proof (cases rule: sys_step_cases)
    case (wake t)
    then show ?thesis using inv c by (simp add: lock_owner_def)
  next
    case (run t ch f' u' s')
    from run(3) have "g_lock u' = g_lock u \<or> g_lock u' = Some t \<or> g_lock u' = None"
    proof (cases rule: thread_step_cases)
      case (local l l')
      then show ?thesis
        by (auto simp: inc_with_lock_def mutex_lock_def mutex_unlock_def
            split: lock_pc.splits if_splits)
    qed simp_all
    then show ?thesis using inv c run(2) unfolding run(4) by (auto simp: lock_owner_def split: option.splits)
  qed
qed

lemma lock_progress_step:
  assumes inv: "lock_inv (ls, u, s)"
    and ok: "\<And>t. t < length ls \<Longrightarrow> lock_ok K (local_of (ls ! t))"
    and own: "lock_owner (ls, u, s)"
    and nj: "\<not> joined (inc_with_lock K) (ls, u, s)"
  shows "\<exists>t l l' u'. t < length ls \<and> ls ! t = User l \<and> inc_with_lock K t l u = Local l' u'
      \<and> lock_left K l' < lock_left K l"
proof (cases "g_lock u")
  case None
  from nj obtain t where t: "t < length ls" and nr: "\<not> returned (inc_with_lock K) u (t, ls ! t)"
    unfolding joined_iff by blast
  from inv t obtain l where l: "ls ! t = User l" "lock_held l \<longleftrightarrow> g_lock u = Some t"
    by (rule lock_invD)
  from nr l have nf: "inc_with_lock K t l u \<noteq> Finished" by (auto split: action.splits)
  from l None have nh: "\<not> lock_held l" by simp
  from ok[OF t] l have okl: "lock_ok K l" by simp
  have "\<exists>l' u'. inc_with_lock K t l u = Local l' u' \<and> lock_left K l' < lock_left K l"
    using nf nh okl None
    by (cases "pc l")
      (auto simp: inc_with_lock_def lock_left_def lock_held_def lock_ok_def mutex_lock_def)
  with t l show ?thesis by blast
next
  case (Some t)
  with own have t: "t < length ls" by (simp add: lock_owner_def)
  from inv t obtain l where l: "ls ! t = User l" "lock_held l \<longleftrightarrow> g_lock u = Some t"
    by (rule lock_invD)
  from l Some have h: "lock_held l" by simp
  from ok[OF t] l have okl: "lock_ok K l" by simp
  have "\<exists>l' u'. inc_with_lock K t l u = Local l' u' \<and> lock_left K l' < lock_left K l"
    using h okl Some
    by (cases "pc l")
      (auto simp: inc_with_lock_def lock_left_def lock_held_def lock_ok_def mutex_unlock_def)
  with t l show ?thesis by blast
qed

lemma lock_safe_step:
  assumes inv: "lock_inv (ls, u, s)"
  shows "sys_step (inc_with_lock K) e (ls, u, s) \<noteq> Undefined"
proof (cases e)
  case (Wake t)
  then show ?thesis by simp
next
  case (Run t ch)
  show ?thesis
  proof (cases "t < length ls")
    case False
    with Run show ?thesis by simp
  next
    case True
    from inv True obtain l where l: "ls ! t = User l" "lock_held l \<longleftrightarrow> g_lock u = Some t"
      by (rule lock_invD)
    have "inc_with_lock K t l u \<noteq> Fault"
      using l(2)
      by (cases "pc l") (auto simp: inc_with_lock_def lock_held_def mutex_lock_def mutex_unlock_def)
    then have "thread_step (inc_with_lock K) t ch (ls ! t) u s \<noteq> Undefined"
      using l(1) by (cases "inc_with_lock K t l u") (simp_all add: thread_step_def)
    then show ?thesis using Run True
      by (cases "thread_step (inc_with_lock K) t ch (ls ! t) u s") simp_all
  qed
qed


lemma lock_good_step:
  assumes "lock_good K c" "sys_step (inc_with_lock K) e c = Step c'"
  shows "lock_good K c'"
  using assms lock_inv_step[of c K e c'] lock_owner_step[of c K e c']
    local_pres_step[OF lock_local, of K c e c']
  by (simp add: lock_good_def)

lemma lock_good_start: "lock_good K (counter_scenario W LTest n)"
  by (simp add: lock_good_def counter_scenario_def spawn_def worker_start_def lock_inv_def
      lock_held_def lock_ok_def lock_owner_def list_all_length)

lemma lock_good_progress:
  assumes g: "lock_good K c" and nj: "\<not> joined (inc_with_lock K) c"
  shows "\<exists>e c'. is_run e \<and> sys_step (inc_with_lock K) e c = Step c'
      \<and> steps_left (lock_rank K) c' < steps_left (lock_rank K) c"
proof -
  obtain ls u s where c: "c = (ls, u, s)" by (cases c)
  from g c have inv: "lock_inv (ls, u, s)" and own: "lock_owner (ls, u, s)"
    and ok: "\<And>t. t < length ls \<Longrightarrow> lock_ok K (local_of (ls ! t))"
    by (simp_all add: lock_good_def list_all_length)
  from lock_progress_step[OF inv ok own nj[unfolded c]] obtain t l l' u' where
    t: "t < length ls" and l: "ls ! t = User l" and st: "inc_with_lock K t l u = Local l' u'"
    and lt: "lock_left K l' < lock_left K l" by blast
  have "is_run (Run t 0)
      \<and> sys_step (inc_with_lock K) (Run t 0) (ls, u, s) = Step (ls[t := User l'], u', s)"
    using t l st by (simp add: thread_step_def)
  moreover have "steps_left (lock_rank K) (ls[t := User l'], u', s) < steps_left (lock_rank K) (ls, u, s)"
    using t by (rule steps_left_update) (use l lt in simp_all)
  ultimately show ?thesis unfolding c by blast
qed

lemma lock_completes:
  assumes "run (inc_with_lock K) es (counter_scenario W LTest n) = Step c"
  shows "\<exists>es' ls u s. list_all is_run es' \<and> run (inc_with_lock K) es' c = Step (ls, u, s)
      \<and> joined (inc_with_lock K) (ls, u, s) \<and> counter u = int (W * K)"
proof -
  have g: "lock_good K c"
    using assms lock_good_start by (rule run_invariant) (rule lock_good_step)
  have "\<exists>es' c'. list_all is_run es' \<and> run (inc_with_lock K) es' c = Step c'
      \<and> joined (inc_with_lock K) c'"
    using lock_good_progress lock_good_step g
    by (rule progress_run[where I = "lock_good K" and mu = "steps_left (lock_rank K)"])
  then obtain es' c' where ev: "list_all is_run es'" and r: "run (inc_with_lock K) es' c = Step c'"
    and j: "joined (inc_with_lock K) c'" by blast
  obtain ls u s where c': "c' = (ls, u, s)" by (cases c')
  from run_append_Step[OF assms r]
  have "run (inc_with_lock K) (es @ es') (counter_scenario W LTest n) = Step (ls, u, s)"
    by (simp add: c')
  from lock_exact[OF this j[unfolded c']] ev r j c' show ?thesis by blast
qed

lemma lock_never_undefined:
  "run (inc_with_lock K) es (counter_scenario W LTest n) \<noteq> Undefined"
proof (rule never_undefined[where I = "lock_good K"])
  show "sys_step (inc_with_lock K) e c \<noteq> Undefined" if "lock_good K c" for e c
  proof -
    obtain ls u s where c: "c = (ls, u, s)" by (cases c)
    from that c have "lock_inv (ls, u, s)" by (simp add: lock_good_def)
    then show ?thesis unfolding c by (rule lock_safe_step)
  qed
qed (auto intro: lock_good_step lock_good_start)

text \<open>The semaphore: its mutex is owned by a thread that exists.\<close>

lemma sem_owner_step:
  assumes inv: "sem_owner c" and st: "sys_step prog e c = Step c'"
  shows "sem_owner c'"
proof -
  obtain ls u s where c: "c = (ls, u, s)" by (cases c)
  from st[unfolded c] show ?thesis
  proof (cases rule: sys_step_cases)
    case (wake t)
    then show ?thesis using inv c by (simp add: sem_owner_def)
  next
    case (run t ch f' u' s')
    from run(3) have "m s' = m s \<or> m s' = Some t \<or> m s' = None"
    proof (cases rule: thread_step_cases)
      case (wait p l r)
      from wait(2) show ?thesis by (cases rule: semc_wait_step_cases) simp_all
    next
      case (post p l r)
      from post(2) show ?thesis by (cases rule: semc_post_step_cases) simp_all
    qed simp_all
    then show ?thesis using inv c run(2) unfolding run(4)
      by (auto simp: sem_owner_def split: option.splits)
  qed
qed

text \<open>No wake-up is lost.\<close>

lemma cond_ok_zero: "count s = 0 \<Longrightarrow> cond_ok f s"
  by (induction f s rule: cond_ok.induct) auto

lemma cond_ok_cong: "count s' = count s \<Longrightarrow> cond_ok f s \<Longrightarrow> cond_ok f s'"
  by (induction f s rule: cond_ok.induct) auto

lemma cond_ok_free: "\<not> holds_m f \<Longrightarrow> cond_ok f s"
  by (induction f s rule: cond_ok.induct) auto

lemma taker_cong: "cv s' = cv s \<Longrightarrow> taker s' t f = taker s t f"
  by (cases f) (auto split: wait_pc.splits)

lemma wake_invI:
  assumes "\<And>k. k < length ls \<Longrightarrow> cond_ok (ls ! k) s"
    and "count s = 0 \<or> cv s = {} \<or> (\<exists>k<length ls. taker s k (ls ! k))"
  shows "wake_inv (ls, u, s)"
  using assms unfolding wake_inv_def by simp

lemma wake_invD:
  assumes "wake_inv (ls, u, s)"
  shows "\<And>k. k < length ls \<Longrightarrow> cond_ok (ls ! k) s"
    and "count s = 0 \<or> cv s = {} \<or> (\<exists>k<length ls. taker s k (ls ! k))"
  using assms unfolding wake_inv_def by simp_all

lemma wake_inv_update:
  assumes lt: "t < length ls"
    and me: "cond_ok f' s'"
    and others: "\<And>k. k < length ls \<Longrightarrow> k \<noteq> t \<Longrightarrow> cond_ok (ls ! k) s'"
    and tk: "count s' = 0 \<or> cv s' = {} \<or> taker s' t f'
        \<or> (\<exists>k<length ls. k \<noteq> t \<and> taker s' k (ls ! k))"
  shows "wake_inv (ls[t := f'], u', s')"
proof (rule wake_invI)
  fix k assume "k < length (ls[t := f'])"
  then have k: "k < length ls" by simp
  show "cond_ok (ls[t := f'] ! k) s'"
  proof (cases "k = t")
    case True
    then show ?thesis using me lt by simp
  next
    case False
    then show ?thesis using others[OF k False] by simp
  qed
next
  from tk consider "count s' = 0 \<or> cv s' = {}" | "taker s' t f'"
    | k where "k < length ls" "k \<noteq> t" "taker s' k (ls ! k)" by blast
  then show "count s' = 0 \<or> cv s' = {} \<or> (\<exists>k<length (ls[t := f']). taker s' k (ls[t := f'] ! k))"
  proof cases
    case 1
    then show ?thesis by blast
  next
    case 2
    then have "t < length (ls[t := f']) \<and> taker s' t (ls[t := f'] ! t)" using lt by simp
    then show ?thesis by blast
  next
    case 3
    then have "k < length (ls[t := f']) \<and> taker s' k (ls[t := f'] ! k)" by simp
    then show ?thesis by blast
  qed
qed

lemma wake_inv_step:
  assumes sem: "sem_inv c" and one: "count (snd (snd c)) \<le> 1" and inv: "wake_inv c"
    and st: "sys_step prog e c = Step c'"
  shows "wake_inv c'"
proof -
  obtain ls u s where c: "c = (ls, u, s)" by (cases c)
  note sem' = sem[unfolded c]
  note nn = sem_invD(1)[OF sem'] and own = sem_invD(2)[OF sem'] and reg = sem_invD(3)[OF sem']
    and slp = sem_invD(4)[OF sem']
  note cnd = wake_invD(1)[OF inv[unfolded c]] and tk = wake_invD(2)[OF inv[unfolded c]]
  from one c have le: "count s \<le> 1" by simp
  from st[unfolded c] show ?thesis
  proof (cases rule: sys_step_cases)
    case (wake t)
    show ?thesis unfolding wake(5)
    proof (rule wake_invI)
      fix k assume "k < length ls"
      from cnd[OF this] show "cond_ok (ls ! k) (s\<lparr>cv := cv s - {t}\<rparr>)"
        by (rule cond_ok_cong[rotated]) simp
    next
      from wake(3) obtain l where "ls ! t = InWait WSleep l" by (cases "ls ! t") auto
      then have "taker (s\<lparr>cv := cv s - {t}\<rparr>) t (ls ! t)" by simp
      with wake(2) show "count (s\<lparr>cv := cv s - {t}\<rparr>) = 0 \<or> cv (s\<lparr>cv := cv s - {t}\<rparr>) = {}
          \<or> (\<exists>k<length ls. taker (s\<lparr>cv := cv s - {t}\<rparr>) k (ls ! k))" by blast
    qed
  next
    case (run t ch f' u' s')
    note lt = \<open>t < length ls\<close>
    have upd: "wake_inv c'"
      if "cond_ok f' s'" "\<And>k. k < length ls \<Longrightarrow> k \<noteq> t \<Longrightarrow> cond_ok (ls ! k) s'"
        "count s' = 0 \<or> cv s' = {} \<or> taker s' t f' \<or> (\<exists>k<length ls. k \<noteq> t \<and> taker s' k (ls ! k))"
      unfolding run(4) using lt that by (rule wake_inv_update)
    have zero: "wake_inv c'" if "count s' = 0"
      using that by (intro upd cond_ok_zero) simp_all
    have keep: "wake_inv c'"
      if "count s' = count s" "cv s' = cv s" "cond_ok f' s'" "taker s t (ls ! t) \<longrightarrow> taker s' t f'"
    proof (rule upd)
      show "cond_ok f' s'" by (rule that(3))
      show "cond_ok (ls ! k) s'" if "k < length ls" "k \<noteq> t" for k
        using \<open>count s' = count s\<close> cnd[OF that(1)] by (rule cond_ok_cong)
      from tk consider "count s = 0 \<or> cv s = {}" | k where "k < length ls" "taker s k (ls ! k)"
        by blast
      then show "count s' = 0 \<or> cv s' = {} \<or> taker s' t f'
          \<or> (\<exists>k<length ls. k \<noteq> t \<and> taker s' k (ls ! k))"
      proof cases
        case 1
        then have "count s' = 0 \<or> cv s' = {}" using that(1,2) by simp
        then show ?thesis by blast
      next
        case 2
        show ?thesis
        proof (cases "k = t")
          case True
          then show ?thesis using 2 that(4) by simp
        next
          case False
          then have "k < length ls \<and> k \<noteq> t \<and> taker s' k (ls ! k)"
            using 2 taker_cong[OF that(2), of k "ls ! k"] by simp
          then show ?thesis by blast
        qed
      qed
    qed
    have alone: "\<not> holds_m (ls ! k)" if "holds_m (ls ! t)" "k < length ls" "k \<noteq> t" for k
      using own[OF lt] own[OF that(2)] that(1,3) by simp
    from run(3) show ?thesis
    proof (cases rule: thread_step_cases)
      case (local l l')
      then show ?thesis by (intro keep) simp_all
    next
      case (callw l l')
      then show ?thesis by (intro keep) simp_all
    next
      case (callp l l')
      then show ?thesis by (intro keep) simp_all
    next
      case (wait p l r)
      from wait(2) show ?thesis
      proof (cases rule: semc_wait_step_cases)
        case WLock
        with wait show ?thesis by (intro keep) simp_all
      next
        case WTest0
        with wait show ?thesis by (intro zero) simp_all
      next
        case WTest1
        with wait show ?thesis by (intro keep) simp_all
      next
        case WCondWait
        from cnd[OF lt] wait(1) WCondWait have "count s = 0" by simp
        with WCondWait show ?thesis by (intro zero) simp_all
      next
        case WSleep
        with wait show ?thesis by (intro keep) simp_all
      next
        case WReacq
        with wait show ?thesis by (intro keep) simp_all
      next
        case WLoad
        with wait show ?thesis by (intro keep) simp_all
      next
        case (WStore x)
        from reg[OF lt] wait(1) WStore have "x = count s" "count s \<noteq> 0" by simp_all
        with nn le have "x - 1 = 0" by simp
        with WStore show ?thesis by (intro zero) simp_all
      next
        case WUnlock
        with wait show ?thesis by (intro keep) simp_all
      qed
    next
      case (post p l r)
      from post(2) show ?thesis
      proof (cases rule: semc_post_step_cases)
        case PLock
        with post show ?thesis by (intro keep) simp_all
      next
        case PLoad
        with post show ?thesis by (intro keep) simp_all
      next
        case (PStore x)
        have h: "holds_m (ls ! t)" using post(1) PStore by simp
        show ?thesis
        proof (rule upd)
          show "cond_ok (ls ! k) s'" if "k < length ls" "k \<noteq> t" for k
            using alone[OF h that] by (rule cond_ok_free)
        qed (use PStore post in simp_all)
      next
        case PSignal0
        show ?thesis
        proof (rule upd)
          show "cond_ok (ls ! k) s'" if "k < length ls" "k \<noteq> t" for k
            using cnd[OF that(1)] PSignal0 by simp
        qed (use PSignal0 post in simp_all)
      next
        case PSignal1
        from slp[OF PSignal1(2)] have ch: "ch < length ls" "asleep (ls ! ch)" by simp_all
        from ch(2) obtain l' where l': "ls ! ch = InWait WSleep l'" by (cases "ls ! ch") auto
        with post(1) have ne: "ch \<noteq> t" by auto
        show ?thesis
        proof (rule upd)
          show "cond_ok (ls ! k) s'" if "k < length ls" "k \<noteq> t" for k
            using _ cnd[OF that(1)] by (rule cond_ok_cong) (simp add: PSignal1)
          have "ch < length ls \<and> ch \<noteq> t \<and> taker s' ch (ls ! ch)"
            using ch(1) ne l' PSignal1 by simp
          then show "count s' = 0 \<or> cv s' = {} \<or> taker s' t f'
              \<or> (\<exists>k<length ls. k \<noteq> t \<and> taker s' k (ls ! k))" by blast
        qed (use PSignal1 post in simp_all)
      next
        case PUnlock
        with post show ?thesis by (intro keep) simp_all
      qed
    qed
  qed
qed

lemma wake_inv_spawn: "wake_inv (spawn W l0 u (semc_init n))"
  by (simp add: wake_inv_def spawn_def semc_init_def)

text \<open>The binary-semaphore worker.\<close>

lemma bin_frame_step:
  assumes inv: "list_all bin_frame (fst c)" and st: "sys_step (inc_with_sem_binary K) e c = Step c'"
  shows "list_all bin_frame (fst c')"
proof -
  obtain ls u s where c: "c = (ls, u, s)" by (cases c)
  from inv c have all: "\<And>k. k < length ls \<Longrightarrow> bin_frame (ls ! k)"
    by (simp add: list_all_length)
  from st[unfolded c] show ?thesis
  proof (cases rule: sys_step_cases)
    case (wake t)
    then show ?thesis using inv c by simp
  next
    case (run t ch f' u' s')
    from run(3) have "bin_frame f'"
    proof (cases rule: thread_step_cases)
      case (local l l')
      then show ?thesis by simp
    next
      case (callw l l')
      then show ?thesis
        by (auto simp: inc_with_sem_binary_def split: bin_pc.splits)
    next
      case (callp l l')
      then show ?thesis
        by (auto simp: inc_with_sem_binary_def split: bin_pc.splits)
    next
      case (wait p l r)
      then show ?thesis using all[OF run(2)] by (cases r) simp_all
    next
      case (post p l r)
      then show ?thesis using all[OF run(2)] by (cases r) simp_all
    qed
    have "bin_frame (ls[t := f'] ! k)" if "k < length ls" for k
      using all[OF that] \<open>bin_frame f'\<close> that by (cases "k = t") simp_all
    then show ?thesis unfolding run(4) by (simp add: list_all_length)
  qed
qed

lemma bin_count_le:
  assumes "permit_inv 1 perm (ls, u, s)"
  shows "count s \<le> 1"
  using assms by (simp add: permit_inv_def)

lemma bin_good_step:
  assumes g: "bin_good K c" and st: "sys_step (inc_with_sem_binary K) e c = Step c'"
  shows "bin_good K c'"
proof -
  obtain ls u s where c: "c = (ls, u, s)" by (cases c)
  from g have sem: "sem_inv c" and per: "permit_inv 1 bin_perm c"
    and ok: "list_all (\<lambda>f. bin_ok K (local_of f)) (fst c)" and fr: "list_all bin_frame (fst c)"
    and own: "sem_owner c" and wk: "wake_inv c"
    by (simp_all add: bin_good_def)
  from per c have "count (snd (snd c)) \<le> 1" using bin_count_le[of bin_perm ls u s] by simp
  from wake_inv_step[OF sem this wk st] sem_inv_step[OF sem st]
    permit_inv_step[OF bin_paired sem per st] local_pres_step[OF bin_local ok st]
    bin_frame_step[OF fr st] sem_owner_step[OF own st]
  show ?thesis by (simp add: bin_good_def)
qed

lemma bin_good_start: "bin_good K (counter_scenario W BTest 1)"
  unfolding bin_good_def counter_scenario_def
  by (simp add: sem_inv_spawn permit_inv_spawn wake_inv_spawn bin_perm_def worker_start_def)
    (simp add: spawn_def list_all_length bin_ok_def worker_start_def sem_owner_def semc_init_def)

lemma bin_rank_other:
  assumes "k \<in> cv s' \<Longrightarrow> k \<in> cv s" "count s' = count s \<or> \<not> holds_m f"
  shows "bin_rank K s' k f \<le> bin_rank K s k f"
proof (cases f)
  case (InWait p l)
  then show ?thesis using assms by (cases p) auto
qed simp_all

text \<open>A thread that owns the semaphore's mutex can go on.\<close>

lemma bin_holder_step:
  assumes h: "holds_m f" "m s = Some t" and reg: "reg_ok f s"
    and cnt: "0 \<le> count s" "count s \<le> 1" and fr: "bin_frame f"
  shows "\<exists>ch f' s'. thread_step (inc_with_sem_binary K) t ch f u s = Step (f', u, s')
      \<and> bin_rank K s' t f' < bin_rank K s t f \<and> (\<forall>k. k \<noteq> t \<longrightarrow> k \<in> cv s' \<longrightarrow> k \<in> cv s)"
proof -
  obtain ch where ch: "cv s = {} \<or> ch \<in> cv s" by blast
  have "\<exists>f' s'. thread_step (inc_with_sem_binary K) t ch f u s = Step (f', u, s')
      \<and> bin_rank K s' t f' < bin_rank K s t f \<and> (\<forall>k. k \<noteq> t \<longrightarrow> k \<in> cv s' \<longrightarrow> k \<in> cv s)"
  proof (cases f)
    case (User l)
    with h show ?thesis by simp
  next
    case (InWait p l)
    with h reg cnt fr show ?thesis
      by (cases p) (auto simp: thread_step_def mutex_unlock_def INT_MIN_def)
  next
    case (InPost p l)
    with h reg cnt fr ch show ?thesis
      by (cases p) (auto simp: thread_step_def mutex_unlock_def cond_signal_def INT_MAX_def)
  qed
  then show ?thesis by blast
qed

text \<open>With the mutex free, the thread that holds the permit can go on.\<close>

lemma bin_permit_step:
  assumes "has_permit bin_perm f" "\<not> holds_m f" "m s = None" "bin_frame f"
  shows "\<exists>f' u' s'. thread_step (inc_with_sem_binary K) t ch f u s = Step (f', u', s')
      \<and> bin_rank K s' t f' < bin_rank K s t f \<and> cv s' = cv s \<and> count s' = count s"
proof (cases f)
  case (User l)
  with assms show ?thesis
    by (cases "pc l") (auto simp: thread_step_def inc_with_sem_binary_def bin_perm_def bin_left_def)
next
  case (InWait p l)
  with assms show ?thesis by (cases p) auto
next
  case (InPost p l)
  with assms show ?thesis
    by (cases p) (auto simp: thread_step_def mutex_lock_def)
qed

text \<open>With the mutex free and the permit there, every thread that has not returned and is
  not blocked on the condition variable can go on.\<close>

lemma bin_free_step:
  assumes "\<not> has_permit bin_perm f" "\<not> holds_m f" "m s = None" "count s \<noteq> 0"
    and "\<not> returned (inc_with_sem_binary K) u (t, f)" "t \<notin> cv s"
    and "bin_frame f" "bin_ok K (local_of f)"
  shows "\<exists>f' u' s'. thread_step (inc_with_sem_binary K) t ch f u s = Step (f', u', s')
      \<and> bin_rank K s' t f' < bin_rank K s t f \<and> cv s' = cv s \<and> count s' = count s"
proof (cases f)
  case (User l)
  with assms show ?thesis
    by (cases "pc l")
      (auto simp: thread_step_def inc_with_sem_binary_def bin_perm_def bin_left_def bin_ok_def)
next
  case (InWait p l)
  with assms show ?thesis
    by (cases p) (auto simp: thread_step_def mutex_lock_def)
next
  case (InPost p l)
  with assms show ?thesis by (cases p) auto
qed

lemma bin_good_progress:
  assumes g: "bin_good K c" and nj: "\<not> joined (inc_with_sem_binary K) c"
  shows "\<exists>e c'. is_run e \<and> sys_step (inc_with_sem_binary K) e c = Step c'
      \<and> steps_left (bin_rank K) c' < steps_left (bin_rank K) c"
proof -
  let ?P = "inc_with_sem_binary K"
  obtain ls u s where c: "c = (ls, u, s)" by (cases c)
  from g c have sem: "sem_inv (ls, u, s)" and per: "permit_inv 1 bin_perm (ls, u, s)"
    and ok: "\<And>k. k < length ls \<Longrightarrow> bin_ok K (local_of (ls ! k))"
    and fr: "\<And>k. k < length ls \<Longrightarrow> bin_frame (ls ! k)"
    and ownr: "sem_owner (ls, u, s)" and wk: "wake_inv (ls, u, s)"
    by (simp_all add: bin_good_def list_all_length)
  note nn = sem_invD(1)[OF sem] and own = sem_invD(2)[OF sem] and reg = sem_invD(3)[OF sem]
    and slp = sem_invD(4)[OF sem]
  from per have total: "count s + int (permits_held bin_perm ls) = 1"
    by (simp add: permit_inv_def)
  have key: "\<exists>t ch f' u' s'. t < length ls
      \<and> thread_step ?P t ch (ls ! t) u s = Step (f', u', s')
      \<and> bin_rank K s' t f' < bin_rank K s t (ls ! t)
      \<and> (\<forall>k. k \<noteq> t \<longrightarrow> k \<in> cv s' \<longrightarrow> k \<in> cv s)
      \<and> (count s' = count s \<or> holds_m (ls ! t))"
  proof (cases "m s")
    case (Some t)
    with ownr have t: "t < length ls" by (simp add: sem_owner_def)
    with own Some have h: "holds_m (ls ! t)" by simp
    from total have "count s \<le> 1" by simp
    from bin_holder_step[OF h Some reg[OF t] nn this fr[OF t], of K u] t h
    show ?thesis by blast
  next
    case None
    with own have free: "\<And>k. k < length ls \<Longrightarrow> \<not> holds_m (ls ! k)" by simp
    show ?thesis
    proof (cases "count s = 0")
      case True
      with total have "filter (has_permit bin_perm) ls \<noteq> []"
        by (auto simp: permits_held_def)
      then obtain f where "f \<in> set ls" "has_permit bin_perm f"
        by (auto simp: filter_empty_conv)
      then obtain t where t: "t < length ls" and p: "has_permit bin_perm (ls ! t)"
        by (auto simp: in_set_conv_nth)
      from bin_permit_step[OF p free[OF t] None fr[OF t], of K t 0 u] t
      show ?thesis by blast
    next
      case False
      with nn total have "permits_held bin_perm ls = 0" by simp
      then have "filter (has_permit bin_perm) ls = []" by (simp add: permits_held_def)
      then have none: "\<And>k. k < length ls \<Longrightarrow> \<not> has_permit bin_perm (ls ! k)"
        by (auto simp: filter_empty_conv)
      have "\<exists>t<length ls. \<not> returned ?P u (t, ls ! t) \<and> t \<notin> cv s"
      proof (cases "cv s = {}")
        case True
        from nj[unfolded c joined_iff] obtain t where "t < length ls" "\<not> returned ?P u (t, ls ! t)"
          by blast
        with True show ?thesis by auto
      next
        case ne: False
        with wake_invD(2)[OF wk] False obtain t where t: "t < length ls" and tk: "taker s t (ls ! t)"
          by blast
        from tk free[OF t] obtain l where "ls ! t = InWait WSleep l \<and> t \<notin> cv s \<or> ls ! t = InWait WReacq l"
          by (cases "ls ! t") (auto split: wait_pc.splits)
        then have "\<not> returned ?P u (t, ls ! t) \<and> t \<notin> cv s"
          using slp[of t] by auto
        with t show ?thesis by blast
      qed
      then obtain t where t: "t < length ls" and nr: "\<not> returned ?P u (t, ls ! t)"
        and aw: "t \<notin> cv s" by blast
      from bin_free_step[OF none[OF t] free[OF t] None False nr aw fr[OF t] ok[OF t], of 0] t
      show ?thesis by blast
    qed
  qed
  then obtain t ch f' u' s' where t: "t < length ls"
    and st: "thread_step ?P t ch (ls ! t) u s = Step (f', u', s')"
    and less: "bin_rank K s' t f' < bin_rank K s t (ls ! t)"
    and cvs: "\<And>k. k \<noteq> t \<Longrightarrow> k \<in> cv s' \<Longrightarrow> k \<in> cv s"
    and cnt: "count s' = count s \<or> holds_m (ls ! t)"
    by blast
  have "is_run (Run t ch) \<and> sys_step ?P (Run t ch) (ls, u, s) = Step (ls[t := f'], u', s')"
    using t st by simp
  moreover have "steps_left (bin_rank K) (ls[t := f'], u', s') < steps_left (bin_rank K) (ls, u, s)"
    using t less
  proof (rule steps_left_update)
    fix k assume k: "k < length ls" "k \<noteq> t"
    have "count s' = count s \<or> \<not> holds_m (ls ! k)"
      using cnt own[OF t] own[OF k(1)] k(2) by auto
    with cvs[OF k(2)] show "bin_rank K s' k (ls ! k) \<le> bin_rank K s k (ls ! k)"
      by (rule bin_rank_other)
  qed
  ultimately show ?thesis unfolding c by blast
qed

lemma bin_safe_step:
  assumes sem: "sem_inv (ls, u, s)" and le: "count s \<le> 1"
  shows "sys_step (inc_with_sem_binary K) e (ls, u, s) \<noteq> Undefined"
proof (cases e)
  case (Wake t)
  then show ?thesis by simp
next
  case (Run t ch)
  show ?thesis
  proof (cases "t < length ls")
    case False
    with Run show ?thesis by simp
  next
    case True
    note own = sem_invD(2)[OF sem True] and reg = sem_invD(3)[OF sem True]
      and nn = sem_invD(1)[OF sem]
    have "thread_step (inc_with_sem_binary K) t ch (ls ! t) u s \<noteq> Undefined"
    proof (cases "ls ! t")
      case (User l)
      then show ?thesis
        by (cases "pc l") (simp_all add: thread_step_def inc_with_sem_binary_def)
    next
      case (InWait p l)
      with own reg nn show ?thesis
        by (cases p) (auto simp: thread_step_def mutex_lock_def mutex_unlock_def INT_MIN_def)
    next
      case (InPost p l)
      with own reg le show ?thesis
        by (cases p)
          (auto simp: thread_step_def mutex_lock_def mutex_unlock_def cond_signal_def INT_MAX_def)
    qed
    then show ?thesis using Run True
      by (cases "thread_step (inc_with_sem_binary K) t ch (ls ! t) u s") simp_all
  qed
qed

lemma bin_completes:
  assumes "run (inc_with_sem_binary K) es (counter_scenario W BTest 1) = Step c"
  shows "\<exists>es' ls u s. list_all is_run es' \<and> run (inc_with_sem_binary K) es' c = Step (ls, u, s)
      \<and> joined (inc_with_sem_binary K) (ls, u, s) \<and> counter u = int (W * K)"
proof -
  let ?P = "inc_with_sem_binary K"
  have g: "bin_good K c"
    using assms bin_good_start by (rule run_invariant) (rule bin_good_step)
  have "\<exists>es' c'. list_all is_run es' \<and> run ?P es' c = Step c' \<and> joined ?P c'"
    using bin_good_progress bin_good_step g
    by (rule progress_run[where I = "bin_good K" and mu = "steps_left (bin_rank K)"])
  then obtain es' c' where ev: "list_all is_run es'" and r: "run ?P es' c = Step c'"
    and j: "joined ?P c'" by blast
  obtain ls u s where c': "c' = (ls, u, s)" by (cases c')
  from run_append_Step[OF assms r]
  have "run ?P (es @ es') (counter_scenario W BTest 1) = Step (ls, u, s)"
    by (simp add: c')
  from bin_exact[OF this j[unfolded c']] ev r j c' show ?thesis by blast
qed

lemma bin_never_undefined:
  "run (inc_with_sem_binary K) es (counter_scenario W BTest 1) \<noteq> Undefined"
proof (rule never_undefined[where I = "bin_good K"])
  show "sys_step (inc_with_sem_binary K) e c \<noteq> Undefined" if "bin_good K c" for e c
  proof -
    obtain ls u s where c: "c = (ls, u, s)" by (cases c)
    from that c have "sem_inv (ls, u, s)" "permit_inv 1 bin_perm (ls, u, s)"
      by (simp_all add: bin_good_def)
    then show ?thesis unfolding c by (intro bin_safe_step bin_count_le)
  qed
qed (auto intro: bin_good_step bin_good_start)

text \<open>Mutual exclusion of the guarded sections.\<close>

lemma lock_held_exclusive:
  assumes "lock_inv c"
  shows "exclusive lock_held (fst c)"
proof -
  obtain ls u s where c: "c = (ls, u, s)" by (cases c)
  show ?thesis
    unfolding exclusive_def c fst_conv
  proof (intro allI impI)
    fix t k assume t: "t < length ls" and k: "k < length ls"
      and p: "pending lock_held (ls ! t) \<and> pending lock_held (ls ! k)"
    from assms[unfolded c] t obtain l where l: "ls ! t = User l" "lock_held l \<longleftrightarrow> g_lock u = Some t"
      by (rule lock_invD)
    from assms[unfolded c] k obtain l' where l': "ls ! k = User l'" "lock_held l' \<longleftrightarrow> g_lock u = Some k"
      by (rule lock_invD)
    from p l have "g_lock u = Some t" by simp
    moreover from p l' have "g_lock u = Some k" by simp
    ultimately show "t = k" by simp
  qed
qed

lemma lock_reachable:
  assumes "run (inc_with_lock K) es (counter_scenario W LTest n) = Step c"
  shows "lock_good K c"
  using assms lock_good_start by (rule run_invariant) (rule lock_good_step)

lemma bin_reachable:
  assumes "run (inc_with_sem_binary K) es (counter_scenario W BTest 1) = Step c"
  shows "bin_good K c"
  using assms bin_good_start by (rule run_invariant) (rule bin_good_step)

lemma lock_sections_exclusive:
  assumes "run (inc_with_lock K) es (counter_scenario W LTest n) = Step (ls, u, s)"
  shows "exclusive lock_held ls"
  using lock_held_exclusive[of "(ls, u, s)"] lock_reachable[OF assms] by (simp add: lock_good_def)

lemma bin_sections_exclusive:
  assumes "run (inc_with_sem_binary K) es (counter_scenario W BTest 1) = Step (ls, u, s)"
  shows "exclusive bin_perm ls"
proof -
  from bin_reachable[OF assms] have "sem_inv (ls, u, s) \<and> permit_inv 1 bin_perm (ls, u, s)"
    by (simp add: bin_good_def)
  with one_permit_exclusive_pend[of bin_perm bin_perm "(ls, u, s)"] show ?thesis by simp
qed

lemma lock_terminates:
  "\<exists>es ls u s. run (inc_with_lock K) es (counter_scenario W LTest n) = Step (ls, u, s)
      \<and> joined (inc_with_lock K) (ls, u, s) \<and> counter u = int (W * K)"
proof -
  have "run (inc_with_lock K) [] (counter_scenario W LTest n) = Step (counter_scenario W LTest n)"
    by simp
  from lock_completes[OF this] show ?thesis by blast
qed

lemma bin_terminates:
  "\<exists>es ls u s. run (inc_with_sem_binary K) es (counter_scenario W BTest 1) = Step (ls, u, s)
      \<and> joined (inc_with_sem_binary K) (ls, u, s) \<and> counter u = int (W * K)"
proof -
  have "run (inc_with_sem_binary K) [] (counter_scenario W BTest 1) = Step (counter_scenario W BTest 1)"
    by simp
  from bin_completes[OF this] show ?thesis by blast
qed

section \<open>The guarded counter scenarios\<close>

text \<open>
  Claim C1. In the mutex-guarded scenarios (w6 \<open>inc_with_lock\<close>, w3 \<open>increment_with_lock\<close>)
  and in the binary-semaphore scenario (w6 \<open>inc_with_sem_binary\<close> on a semaphore of one
  permit), for every number \<open>W\<close> of workers and every iteration count \<open>K\<close>:
  in every interleaving \<open>es\<close> of the workers' steps (spurious wake-ups included), once all
  workers have returned, the counter is exactly \<open>W * K\<close>; there is an interleaving after
  which all workers have returned; more than that, from every state that an interleaving
  reaches the workers can all go on to their return, by steps of their own and with no
  spurious wake-up, and the counter is \<open>W * K\<close> then; in every state reached at most one
  worker is inside the guarded section; and no interleaving runs into undefined behaviour
  (an unlock by a thread that does not own the mutex, or an overflow of the semaphore's
  count).
\<close>

theorem guarded_counter_exact:
  "(run (inc_with_lock K) es1 (counter_scenario W LTest n1) = Step (ls1, u1, s1)
      \<and> joined (inc_with_lock K) (ls1, u1, s1) \<longrightarrow> counter u1 = int (W * K))
   \<and> (run (increment_with_lock K) es2 (counter_scenario W LTest n2) = Step (ls2, u2, s2)
      \<and> joined (increment_with_lock K) (ls2, u2, s2) \<longrightarrow> counter u2 = int (W * K))
   \<and> (run (inc_with_sem_binary K) es3 (counter_scenario W BTest 1) = Step (ls3, u3, s3)
      \<and> joined (inc_with_sem_binary K) (ls3, u3, s3) \<longrightarrow> counter u3 = int (W * K))
   \<and> (\<exists>es ls u s. run (inc_with_lock K) es (counter_scenario W LTest n1) = Step (ls, u, s)
        \<and> joined (inc_with_lock K) (ls, u, s) \<and> counter u = int (W * K))
   \<and> (\<exists>es ls u s. run (increment_with_lock K) es (counter_scenario W LTest n2) = Step (ls, u, s)
        \<and> joined (increment_with_lock K) (ls, u, s) \<and> counter u = int (W * K))
   \<and> (\<exists>es ls u s. run (inc_with_sem_binary K) es (counter_scenario W BTest 1) = Step (ls, u, s)
        \<and> joined (inc_with_sem_binary K) (ls, u, s) \<and> counter u = int (W * K))
   \<and> (run (inc_with_lock K) es1 (counter_scenario W LTest n1) = Step (ls1, u1, s1) \<longrightarrow>
        exclusive lock_held ls1
        \<and> (\<exists>es ls u s. list_all is_run es
              \<and> run (inc_with_lock K) es (ls1, u1, s1) = Step (ls, u, s)
              \<and> joined (inc_with_lock K) (ls, u, s) \<and> counter u = int (W * K)))
   \<and> (run (increment_with_lock K) es2 (counter_scenario W LTest n2) = Step (ls2, u2, s2) \<longrightarrow>
        exclusive lock_held ls2
        \<and> (\<exists>es ls u s. list_all is_run es
              \<and> run (increment_with_lock K) es (ls2, u2, s2) = Step (ls, u, s)
              \<and> joined (increment_with_lock K) (ls, u, s) \<and> counter u = int (W * K)))
   \<and> (run (inc_with_sem_binary K) es3 (counter_scenario W BTest 1) = Step (ls3, u3, s3) \<longrightarrow>
        exclusive bin_perm ls3
        \<and> (\<exists>es ls u s. list_all is_run es
              \<and> run (inc_with_sem_binary K) es (ls3, u3, s3) = Step (ls, u, s)
              \<and> joined (inc_with_sem_binary K) (ls, u, s) \<and> counter u = int (W * K)))
   \<and> run (inc_with_lock K) es1 (counter_scenario W LTest n1) \<noteq> Undefined
   \<and> run (increment_with_lock K) es2 (counter_scenario W LTest n2) \<noteq> Undefined
   \<and> run (inc_with_sem_binary K) es3 (counter_scenario W BTest 1) \<noteq> Undefined"
proof -
  note w3 = increment_with_lock_eq
  have A1: "run (inc_with_lock K) es1 (counter_scenario W LTest n1) = Step (ls1, u1, s1)
      \<and> joined (inc_with_lock K) (ls1, u1, s1) \<longrightarrow> counter u1 = int (W * K)"
    using lock_exact[of K es1 W n1 ls1 u1 s1] by blast
  have A2: "run (increment_with_lock K) es2 (counter_scenario W LTest n2) = Step (ls2, u2, s2)
      \<and> joined (increment_with_lock K) (ls2, u2, s2) \<longrightarrow> counter u2 = int (W * K)"
    unfolding w3 using lock_exact[of K es2 W n2 ls2 u2 s2] by blast
  have A3: "run (inc_with_sem_binary K) es3 (counter_scenario W BTest 1) = Step (ls3, u3, s3)
      \<and> joined (inc_with_sem_binary K) (ls3, u3, s3) \<longrightarrow> counter u3 = int (W * K)"
    using bin_exact[of K es3 W ls3 u3 s3] by blast
  have B1: "\<exists>es ls u s. run (inc_with_lock K) es (counter_scenario W LTest n1) = Step (ls, u, s)
        \<and> joined (inc_with_lock K) (ls, u, s) \<and> counter u = int (W * K)"
    by (rule lock_terminates)
  have B2: "\<exists>es ls u s. run (increment_with_lock K) es (counter_scenario W LTest n2) = Step (ls, u, s)
        \<and> joined (increment_with_lock K) (ls, u, s) \<and> counter u = int (W * K)"
    unfolding w3 by (rule lock_terminates)
  have B3: "\<exists>es ls u s. run (inc_with_sem_binary K) es (counter_scenario W BTest 1) = Step (ls, u, s)
        \<and> joined (inc_with_sem_binary K) (ls, u, s) \<and> counter u = int (W * K)"
    by (rule bin_terminates)
  have C1: "run (inc_with_lock K) es1 (counter_scenario W LTest n1) = Step (ls1, u1, s1) \<longrightarrow>
        exclusive lock_held ls1
        \<and> (\<exists>es ls u s. list_all is_run es
              \<and> run (inc_with_lock K) es (ls1, u1, s1) = Step (ls, u, s)
              \<and> joined (inc_with_lock K) (ls, u, s) \<and> counter u = int (W * K))"
    using lock_sections_exclusive[of K es1 W n1 ls1 u1 s1]
      lock_completes[of K es1 W n1 "(ls1, u1, s1)"] by blast
  have C2: "run (increment_with_lock K) es2 (counter_scenario W LTest n2) = Step (ls2, u2, s2) \<longrightarrow>
        exclusive lock_held ls2
        \<and> (\<exists>es ls u s. list_all is_run es
              \<and> run (increment_with_lock K) es (ls2, u2, s2) = Step (ls, u, s)
              \<and> joined (increment_with_lock K) (ls, u, s) \<and> counter u = int (W * K))"
    unfolding w3
    using lock_sections_exclusive[of K es2 W n2 ls2 u2 s2]
      lock_completes[of K es2 W n2 "(ls2, u2, s2)"] by blast
  have C3: "run (inc_with_sem_binary K) es3 (counter_scenario W BTest 1) = Step (ls3, u3, s3) \<longrightarrow>
        exclusive bin_perm ls3
        \<and> (\<exists>es ls u s. list_all is_run es
              \<and> run (inc_with_sem_binary K) es (ls3, u3, s3) = Step (ls, u, s)
              \<and> joined (inc_with_sem_binary K) (ls, u, s) \<and> counter u = int (W * K))"
    using bin_sections_exclusive[of K es3 W ls3 u3 s3]
      bin_completes[of K es3 W "(ls3, u3, s3)"] by blast
  have D1: "run (inc_with_lock K) es1 (counter_scenario W LTest n1) \<noteq> Undefined"
    by (rule lock_never_undefined)
  have D2: "run (increment_with_lock K) es2 (counter_scenario W LTest n2) \<noteq> Undefined"
    unfolding w3 by (rule lock_never_undefined)
  have D3: "run (inc_with_sem_binary K) es3 (counter_scenario W BTest 1) \<noteq> Undefined"
    by (rule bin_never_undefined)
  from A1 A2 A3 B1 B2 B3 C1 C2 C3 D1 D2 D3 show ?thesis by (intro conjI)
qed

text \<open>Witness for C1: two workers and one iteration each. In the mutex run the second
  worker reaches the lock while the first holds it and goes on after the unlock; stopped
  there, with the first worker inside the guarded section, the run can be completed. In
  the semaphore run the workers take their turns one after the other; stopped when the
  first worker holds the permit and the second is blocked in \<open>pthread_cond_wait\<close>, the run
  can be completed with no spurious wake-up.\<close>

theorem guarded_counter_exact_witness:
  "run (inc_with_lock 1)
      [Run 0 0, Run 1 0, Run 0 0, Run 0 0, Run 0 0, Run 0 0, Run 1 0, Run 1 0, Run 1 0, Run 1 0,
       Run 0 0, Run 0 0, Run 1 0, Run 1 0]
      (counter_scenario 2 LTest 0)
     = Step ([User \<lparr>pc = LReturn, i = 1, tmp = 0\<rparr>, User \<lparr>pc = LReturn, i = 1, tmp = 1\<rparr>],
             \<lparr>counter = 2, g_lock = None\<rparr>, semc_init 0)
   \<and> run (inc_with_sem_binary 1) (replicate 17 (Run 0 0) @ replicate 17 (Run 1 0))
      (counter_scenario 2 BTest 1)
     = Step ([User \<lparr>pc = BReturn, i = 1, tmp = 0\<rparr>, User \<lparr>pc = BReturn, i = 1, tmp = 1\<rparr>],
             \<lparr>counter = 2, g_lock = None\<rparr>, semc_init 1)
   \<and> counter \<lparr>counter = 2, g_lock = None\<rparr> = int (2 * 1)
   \<and> run (inc_with_lock 1) [Run 0 0, Run 1 0, Run 0 0] (counter_scenario 2 LTest 0)
     = Step ([User \<lparr>pc = LLoad, i = 0, tmp = 0\<rparr>, User \<lparr>pc = LLock, i = 0, tmp = 0\<rparr>],
             \<lparr>counter = 0, g_lock = Some 0\<rparr>, semc_init 0)
   \<and> exclusive lock_held
        [User \<lparr>pc = LLoad, i = 0, tmp = 0\<rparr>, User \<lparr>pc = LLock, i = 0, tmp = 0\<rparr>]
   \<and> (\<exists>es ls u s. list_all is_run es
        \<and> run (inc_with_lock 1) es
            ([User \<lparr>pc = LLoad, i = 0, tmp = 0\<rparr>, User \<lparr>pc = LLock, i = 0, tmp = 0\<rparr>],
             \<lparr>counter = 0, g_lock = Some 0\<rparr>, semc_init 0) = Step (ls, u, s)
        \<and> joined (inc_with_lock 1) (ls, u, s) \<and> counter u = int (2 * 1))
   \<and> run (inc_with_sem_binary 1) (replicate 7 (Run 0 0) @ replicate 5 (Run 1 0))
      (counter_scenario 2 BTest 1)
     = Step ([User \<lparr>pc = BLoad, i = 0, tmp = 0\<rparr>, InWait WSleep \<lparr>pc = BLoad, i = 0, tmp = 0\<rparr>],
             \<lparr>counter = 0, g_lock = None\<rparr>, \<lparr>count = 0, m = None, cv = {1}\<rparr>)
   \<and> exclusive bin_perm
        [User \<lparr>pc = BLoad, i = 0, tmp = 0\<rparr>, InWait WSleep \<lparr>pc = BLoad, i = 0, tmp = 0\<rparr>]
   \<and> (\<exists>es ls u s. list_all is_run es
        \<and> run (inc_with_sem_binary 1) es
            ([User \<lparr>pc = BLoad, i = 0, tmp = 0\<rparr>, InWait WSleep \<lparr>pc = BLoad, i = 0, tmp = 0\<rparr>],
             \<lparr>counter = 0, g_lock = None\<rparr>, \<lparr>count = 0, m = None, cv = {1}\<rparr>) = Step (ls, u, s)
        \<and> joined (inc_with_sem_binary 1) (ls, u, s) \<and> counter u = int (2 * 1))"
proof -
  let ?lsL = "[User \<lparr>pc = LReturn, i = 1, tmp = 0\<rparr>, User \<lparr>pc = LReturn, i = 1, tmp = 1\<rparr>]"
  let ?lsB = "[User \<lparr>pc = BReturn, i = 1, tmp = 0\<rparr>, User \<lparr>pc = BReturn, i = 1, tmp = 1\<rparr>]"
  let ?u = "\<lparr>counter = 2, g_lock = None\<rparr>"
  let ?esL = "[Run 0 0, Run 1 0, Run 0 0, Run 0 0, Run 0 0, Run 0 0, Run 1 0, Run 1 0, Run 1 0,
       Run 1 0, Run 0 0, Run 0 0, Run 1 0, Run 1 0]"
  let ?esB = "replicate 17 (Run 0 0) @ replicate 17 (Run 1 0)"
  let ?esM = "[Run 0 0, Run 1 0, Run 0 0]"
  let ?lsM = "[User \<lparr>pc = LLoad, i = 0, tmp = 0\<rparr>, User \<lparr>pc = LLock, i = 0, tmp = 0\<rparr>]"
  let ?uM = "\<lparr>counter = 0, g_lock = Some 0\<rparr>"
  let ?esN = "replicate 7 (Run 0 0) @ replicate 5 (Run 1 0)"
  let ?lsN = "[User \<lparr>pc = BLoad, i = 0, tmp = 0\<rparr>, InWait WSleep \<lparr>pc = BLoad, i = 0, tmp = 0\<rparr>]"
  let ?uN = "\<lparr>counter = 0, g_lock = None\<rparr>"
  let ?sN = "\<lparr>count = 0, m = None, cv = {1}\<rparr>"
  have rL: "run (inc_with_lock 1) ?esL (counter_scenario 2 LTest 0) = Step (?lsL, ?u, semc_init 0)"
    by (simp add: counter_scenario_def spawn_def worker_start_def semc_init_def numeral_eq_Suc
        thread_step_def inc_with_lock_def mutex_lock_def mutex_unlock_def)
  have rI: "run (increment_with_lock 1) ?esL (counter_scenario 2 LTest 0) = Step (?lsL, ?u, semc_init 0)"
    by (simp add: counter_scenario_def spawn_def worker_start_def semc_init_def numeral_eq_Suc
        thread_step_def increment_with_lock_def mutex_lock_def mutex_unlock_def)
  have rB: "run (inc_with_sem_binary 1) ?esB (counter_scenario 2 BTest 1) = Step (?lsB, ?u, semc_init 1)"
    by (simp add: counter_scenario_def spawn_def worker_start_def semc_init_def numeral_eq_Suc
        thread_step_def inc_with_sem_binary_def mutex_lock_def mutex_unlock_def cond_signal_def
        INT_MAX_def INT_MIN_def)
  have rM: "run (inc_with_lock 1) ?esM (counter_scenario 2 LTest 0) = Step (?lsM, ?uM, semc_init 0)"
    by (simp add: counter_scenario_def spawn_def worker_start_def semc_init_def numeral_eq_Suc
        thread_step_def inc_with_lock_def mutex_lock_def mutex_unlock_def)
  have rN: "run (inc_with_sem_binary 1) ?esN (counter_scenario 2 BTest 1) = Step (?lsN, ?uN, ?sN)"
    by (simp add: counter_scenario_def spawn_def worker_start_def semc_init_def numeral_eq_Suc
        thread_step_def inc_with_sem_binary_def mutex_lock_def mutex_unlock_def cond_signal_def
        INT_MAX_def INT_MIN_def)
  have jL: "joined (inc_with_lock 1) (?lsL, ?u, semc_init 0)"
    by (simp add: inc_with_lock_def)
  have jI: "joined (increment_with_lock 1) (?lsL, ?u, semc_init 0)"
    by (simp add: increment_with_lock_def)
  have jB: "joined (inc_with_sem_binary 1) (?lsB, ?u, semc_init 1)"
    by (simp add: inc_with_sem_binary_def)
  note T = guarded_counter_exact[where K = 1 and W = 2 and ?n1.0 = 0 and ?n2.0 = 0
      and ?es1.0 = ?esL and ?ls1.0 = ?lsL and ?u1.0 = ?u and ?s1.0 = "semc_init 0"
      and ?es2.0 = ?esL and ?ls2.0 = ?lsL and ?u2.0 = ?u and ?s2.0 = "semc_init 0"
      and ?es3.0 = ?esB and ?ls3.0 = ?lsB and ?u3.0 = ?u and ?s3.0 = "semc_init 1"]
  note M = guarded_counter_exact[where K = 1 and W = 2 and ?n1.0 = 0 and ?n2.0 = 0
      and ?es1.0 = ?esM and ?ls1.0 = ?lsM and ?u1.0 = ?uM and ?s1.0 = "semc_init 0"
      and ?es3.0 = ?esN and ?ls3.0 = ?lsN and ?u3.0 = ?uN and ?s3.0 = ?sN]
  from T rL rI rB jL jI jB have c: "counter ?u = int (2 * 1)" by blast
  from M rM have xM: "exclusive lock_held ?lsM"
    and pM: "\<exists>es ls u s. list_all is_run es
        \<and> run (inc_with_lock 1) es (?lsM, ?uM, semc_init 0) = Step (ls, u, s)
        \<and> joined (inc_with_lock 1) (ls, u, s) \<and> counter u = int (2 * 1)"
    by blast+
  from M rN have xN: "exclusive bin_perm ?lsN"
    and pN: "\<exists>es ls u s. list_all is_run es
        \<and> run (inc_with_sem_binary 1) es (?lsN, ?uN, ?sN) = Step (ls, u, s)
        \<and> joined (inc_with_sem_binary 1) (ls, u, s) \<and> counter u = int (2 * 1)"
    by blast+
  from rL rB c rM xM pM rN xN pN show ?thesis by (intro conjI)
qed

section \<open>The semaphore in isolation\<close>

text \<open>How one step of the system changes the permit count: only the store of \<open>count--\<close>
  lowers it, by one and from a positive value; only the store of \<open>count++\<close> raises it, by
  one.\<close>

lemma count_step:
  assumes sem: "sem_inv (ls, u, s)" and st: "sys_step prog e (ls, u, s) = Step (ls', u', s')"
  shows "count s' = count s
    \<or> (\<exists>t ch l. e = Run t ch \<and> t < length ls \<and> ls ! t = InWait (WStore (count s)) l
          \<and> 0 < count s \<and> count s' = count s - 1)
    \<or> (\<exists>t ch l. e = Run t ch \<and> t < length ls \<and> ls ! t = InPost (PStore (count s)) l
          \<and> count s' = count s + 1)"
proof -
  note nn = sem_invD(1)[OF sem] and reg = sem_invD(3)[OF sem]
  from st show ?thesis
  proof (cases rule: sys_step_cases)
    case (wake t)
    then show ?thesis by simp
  next
    case (run t ch f' u1 s1)
    then have s1: "s1 = s'" by simp
    note lt = \<open>t < length ls\<close>
    from run(3) show ?thesis
    proof (cases rule: thread_step_cases)
      case (wait p l r)
      from wait(2) show ?thesis
      proof (cases rule: semc_wait_step_cases)
        case (WStore x)
        from reg[OF lt] wait(1) WStore have "x = count s" "count s \<noteq> 0" by simp_all
        with nn have "0 < count s" by simp
        with WStore wait(1) run(1) lt s1 \<open>x = count s\<close> show ?thesis by auto
      qed (use s1 in simp_all)
    next
      case (post p l r)
      from post(2) show ?thesis
      proof (cases rule: semc_post_step_cases)
        case (PStore x)
        from reg[OF lt] post(1) PStore have "x = count s" by simp
        with PStore post(1) run(1) lt s1 show ?thesis by auto
      qed (use s1 in simp_all)
    qed (use s1 in simp_all)
  qed
qed

lemma sem_inv_reachable:
  assumes "0 \<le> n" "run prog es (spawn W l0 u0 (semc_init n)) = Step c"
  shows "sem_inv c"
  using sem_inv_spawn[OF assms(1)] assms(2) by (rule sem_inv_run)

text \<open>
  Claim C2. From a non-negative initial count, in every interleaving of any workers that
  use the semaphore through \<open>semc_wait\<close> and \<open>semc_post\<close> (in any order and number, with
  spurious wake-ups): the count is never negative; a thread that has passed the loop of
  \<open>semc_wait\<close> sees a positive count, the value it has read for \<open>count--\<close> is still the
  count, and its store lowers the count by exactly one; no other step lowers the count.
  Inside \<open>semc_wait\<close>: on a zero count the test leads into \<open>pthread_cond_wait\<close>, which
  releases the mutex and blocks the thread; a blocked thread makes no step; once unblocked
  it takes the mutex again and then tests the count again.
\<close>

theorem semc_wait_never_negative:
  "(0 \<le> n \<and> run prog es (spawn W l0 u0 (semc_init n)) = Step (ls, u, s) \<longrightarrow>
      0 \<le> count s
      \<and> (\<forall>t l. t < length ls \<and> ls ! t = InWait WLoad l \<longrightarrow> 0 < count s)
      \<and> (\<forall>t l r. t < length ls \<and> ls ! t = InWait (WStore r) l \<longrightarrow>
            r = count s \<and> 0 < count s
            \<and> semc_wait_step t (WStore r) s = Step (Some WUnlock, s\<lparr>count := count s - 1\<rparr>))
      \<and> (\<forall>e ls' u' s'. sys_step prog e (ls, u, s) = Step (ls', u', s') \<and> count s' < count s \<longrightarrow>
            0 < count s \<and> count s' = count s - 1
            \<and> (\<exists>t ch l. e = Run t ch \<and> ls ! t = InWait (WStore (count s)) l)))
   \<and> semc_wait_step t WTest s1 = Step (Some (if count s1 = 0 then WCondWait else WLoad), s1)
   \<and> (m s1 = Some t \<longrightarrow>
        semc_wait_step t WCondWait s1 = Step (Some WSleep, s1\<lparr>m := None, cv := insert t (cv s1)\<rparr>))
   \<and> semc_wait_step t WSleep s1 = (if t \<in> cv s1 then NoStep else Step (Some WReacq, s1))
   \<and> semc_wait_step t WReacq s1
        = (if m s1 = None then Step (Some WTest, s1\<lparr>m := Some t\<rparr>) else NoStep)"
proof -
  have reach: "0 \<le> count s
      \<and> (\<forall>t l. t < length ls \<and> ls ! t = InWait WLoad l \<longrightarrow> 0 < count s)
      \<and> (\<forall>t l r. t < length ls \<and> ls ! t = InWait (WStore r) l \<longrightarrow>
            r = count s \<and> 0 < count s
            \<and> semc_wait_step t (WStore r) s = Step (Some WUnlock, s\<lparr>count := count s - 1\<rparr>))
      \<and> (\<forall>e ls' u' s'. sys_step prog e (ls, u, s) = Step (ls', u', s') \<and> count s' < count s \<longrightarrow>
            0 < count s \<and> count s' = count s - 1
            \<and> (\<exists>t ch l. e = Run t ch \<and> ls ! t = InWait (WStore (count s)) l))"
    if h: "0 \<le> n" "run prog es (spawn W l0 u0 (semc_init n)) = Step (ls, u, s)"
  proof -
    from h have sem: "sem_inv (ls, u, s)" by (rule sem_inv_reachable)
    note nn = sem_invD(1)[OF sem] and reg = sem_invD(3)[OF sem]
    have a: "0 < count s" if "t < length ls" "ls ! t = InWait WLoad l" for t l
      using reg[OF that(1)] that(2) nn by simp
    have b: "r = count s \<and> 0 < count s
        \<and> semc_wait_step t (WStore r) s = Step (Some WUnlock, s\<lparr>count := count s - 1\<rparr>)"
      if "t < length ls" "ls ! t = InWait (WStore r) l" for t l r
      using reg[OF that(1)] that(2) nn by (simp add: INT_MIN_def)
    have c: "0 < count s \<and> count s' = count s - 1
        \<and> (\<exists>t ch l. e = Run t ch \<and> ls ! t = InWait (WStore (count s)) l)"
      if "sys_step prog e (ls, u, s) = Step (ls', u', s')" "count s' < count s" for e ls' u' s'
      using count_step[OF sem that(1)] that(2) by auto
    from nn a b c show ?thesis by blast
  qed
  have steps: "semc_wait_step t WTest s1 = Step (Some (if count s1 = 0 then WCondWait else WLoad), s1)"
    "m s1 = Some t \<longrightarrow>
        semc_wait_step t WCondWait s1 = Step (Some WSleep, s1\<lparr>m := None, cv := insert t (cv s1)\<rparr>)"
    "semc_wait_step t WSleep s1 = (if t \<in> cv s1 then NoStep else Step (Some WReacq, s1))"
    "semc_wait_step t WReacq s1
        = (if m s1 = None then Step (Some WTest, s1\<lparr>m := Some t\<rparr>) else NoStep)"
    by (simp_all add: mutex_lock_def mutex_unlock_def)
  from reach steps show ?thesis by blast
qed

text \<open>Witness for C2: one worker of the binary-semaphore scenario, stopped after it has
  read the count for \<open>count--\<close>.\<close>

theorem semc_wait_never_negative_witness:
  "(0::int) \<le> 1
   \<and> run (inc_with_sem_binary 1) (replicate 5 (Run 0 0)) (spawn 1 (worker_start BTest) \<lparr>counter = 0, g_lock = None\<rparr> (semc_init 1))
      = Step ([InWait (WStore 1) \<lparr>pc = BLoad, i = 0, tmp = 0\<rparr>], \<lparr>counter = 0, g_lock = None\<rparr>,
              \<lparr>count = 1, m = Some 0, cv = {}\<rparr>)
   \<and> 0 \<le> count \<lparr>count = 1, m = Some 0, cv = {}\<rparr>
   \<and> semc_wait_step 0 (WStore 1) \<lparr>count = 1, m = Some 0, cv = {}\<rparr>
      = Step (Some WUnlock, \<lparr>count = 0, m = Some 0, cv = {}\<rparr>)
   \<and> semc_wait_step 0 WCondWait \<lparr>count = 0, m = Some 0, cv = {}\<rparr>
      = Step (Some WSleep, \<lparr>count = 0, m = None, cv = {0}\<rparr>)"
proof -
  let ?u = "\<lparr>counter = 0, g_lock = None\<rparr>"
  let ?s = "\<lparr>count = 1, m = Some 0, cv = {}\<rparr>"
  let ?sz = "\<lparr>count = 0, m = Some 0, cv = {}\<rparr>"
  let ?ls = "[InWait (WStore 1) \<lparr>pc = BLoad, i = 0, tmp = 0\<rparr>]"
  have n: "(0::int) \<le> 1" by simp
  have r: "run (inc_with_sem_binary 1) (replicate 5 (Run 0 0))
      (spawn 1 (worker_start BTest) ?u (semc_init 1)) = Step (?ls, ?u, ?s)"
    by (simp add: spawn_def worker_start_def semc_init_def numeral_eq_Suc
        thread_step_def inc_with_sem_binary_def mutex_lock_def mutex_unlock_def)
  have at: "(0::nat) < length ?ls \<and> ?ls ! 0 = InWait (WStore 1) \<lparr>pc = BLoad, i = 0, tmp = 0\<rparr>"
    by simp
  have own: "m ?sz = Some 0" by simp
  from semc_wait_never_negative[of 1 "inc_with_sem_binary 1" "replicate 5 (Run 0 0)" 1
      "worker_start BTest" ?u ?ls ?u ?s 0 ?sz] n r
  have 1: "0 \<le> count ?s"
    and 2: "\<forall>t l r. t < length ?ls \<and> ?ls ! t = InWait (WStore r) l \<longrightarrow>
            r = count ?s \<and> 0 < count ?s
            \<and> semc_wait_step t (WStore r) ?s = Step (Some WUnlock, ?s\<lparr>count := count ?s - 1\<rparr>)"
    and 3: "m ?sz = Some 0 \<longrightarrow>
        semc_wait_step 0 WCondWait ?sz = Step (Some WSleep, ?sz\<lparr>m := None, cv := insert 0 (cv ?sz)\<rparr>)"
    by blast+
  from 2 at have "semc_wait_step 0 (WStore 1) ?s = Step (Some WUnlock, ?s\<lparr>count := count ?s - 1\<rparr>)"
    by blast
  moreover from 3 own have "semc_wait_step 0 WCondWait ?sz
      = Step (Some WSleep, ?sz\<lparr>m := None, cv := insert 0 (cv ?sz)\<rparr>)" by blast
  ultimately show ?thesis using n r 1 by simp
qed

lemma acquire_solo:
  assumes "t < length ls" "ls ! t = User l0" "prog t l0 u = CallWait l1" "0 < c"
  shows "run prog (replicate 6 (Run t ch)) (ls, u, \<lparr>count = c, m = None, cv = V\<rparr>)
    = Step (ls[t := User l1], u, \<lparr>count = c - 1, m = None, cv = V\<rparr>)"
  using assms
  by (simp add: numeral_eq_Suc thread_step_def mutex_lock_def mutex_unlock_def INT_MIN_def)

lemma acquire_blocks:
  assumes "t < length ls" "ls ! t = User l0" "prog t l0 u = CallWait l1"
  shows "run prog (replicate 4 (Run t ch)) (ls, u, \<lparr>count = 0, m = None, cv = V\<rparr>)
    = Step (ls[t := InWait WSleep l1], u, \<lparr>count = 0, m = None, cv = insert t V\<rparr>)"
    and "sys_step prog (Run t ch') (ls[t := InWait WSleep l1], u, \<lparr>count = 0, m = None, cv = insert t V\<rparr>)
      = NoStep"
  using assms
  by (simp_all add: numeral_eq_Suc thread_step_def mutex_lock_def mutex_unlock_def)

lemma release_solo:
  assumes "h < length ls" "ls ! h = User lh" "prog h lh u = CallPost lh'" "c \<noteq> INT_MAX"
    "V = {} \<or> w \<in> V"
  shows "run prog (replicate 6 (Run h w)) (ls, u, \<lparr>count = c, m = None, cv = V\<rparr>)
    = Step (ls[h := User lh'], u, \<lparr>count = c + 1, m = None, cv = V - {w}\<rparr>)"
  using assms
  by (auto simp add: numeral_eq_Suc thread_step_def mutex_lock_def mutex_unlock_def cond_signal_def)

lemma wake_solo:
  assumes "w < length ls" "ls ! w = InWait WSleep lw" "w \<notin> V" "0 < c"
  shows "run prog (replicate 6 (Run w ch)) (ls, u, \<lparr>count = c, m = None, cv = V\<rparr>)
    = Step (ls[w := User lw], u, \<lparr>count = c - 1, m = None, cv = V\<rparr>)"
  using assms
  by (simp add: numeral_eq_Suc thread_step_def mutex_lock_def mutex_unlock_def INT_MIN_def)

lemma release_unblocks:
  assumes "h < length ls" "ls ! h = User lh" "prog h lh u = CallPost lh'"
    and "w < length ls" "ls ! w = InWait WSleep lw" "w \<in> V" "h \<noteq> w" "0 \<le> c" "c \<noteq> INT_MAX"
  shows "run prog (replicate 6 (Run h w) @ replicate 6 (Run w ch)) (ls, u, \<lparr>count = c, m = None, cv = V\<rparr>)
    = Step (ls[h := User lh', w := User lw], u, \<lparr>count = c, m = None, cv = V - {w}\<rparr>)"
proof -
  have 1: "run prog (replicate 6 (Run h w)) (ls, u, \<lparr>count = c, m = None, cv = V\<rparr>)
    = Step (ls[h := User lh'], u, \<lparr>count = c + 1, m = None, cv = V - {w}\<rparr>)"
    using assms by (intro release_solo) auto
  have 2: "run prog (replicate 6 (Run w ch)) (ls[h := User lh'], u, \<lparr>count = c + 1, m = None, cv = V - {w}\<rparr>)
    = Step (ls[h := User lh', w := User lw], u, \<lparr>count = c + 1 - 1, m = None, cv = V - {w}\<rparr>)"
    using assms by (intro wake_solo) auto
  from run_append_Step[OF 1 2] show ?thesis by simp
qed

lemma acquire_all:
  assumes call: "\<And>t u. prog t l0 u = CallWait l1" and "k \<le> W" "int k \<le> n"
  shows "run prog (concat (map (\<lambda>t. replicate 6 (Run t 0)) [0..<k])) (spawn W l0 u0 (semc_init n))
    = Step (map (\<lambda>t. User (if t < k then l1 else l0)) [0..<W], u0,
            \<lparr>count = n - int k, m = None, cv = {}\<rparr>)"
  using assms(2,3)
proof (induction k)
  case 0
  show ?case by (simp add: spawn_def semc_init_def map_replicate_const)
next
  case (Suc k)
  let ?ls = "\<lambda>k. map (\<lambda>t. User (if t < k then l1 else l0)) [0..<W]"
  from Suc have IH: "run prog (concat (map (\<lambda>t. replicate 6 (Run t 0)) [0..<k]))
      (spawn W l0 u0 (semc_init n)) = Step (?ls k, u0, \<lparr>count = n - int k, m = None, cv = {}\<rparr>)"
    by simp
  have step: "run prog (replicate 6 (Run k 0)) (?ls k, u0, \<lparr>count = n - int k, m = None, cv = {}\<rparr>)
      = Step ((?ls k)[k := User l1], u0, \<lparr>count = n - int k - 1, m = None, cv = {}\<rparr>)"
    using Suc.prems by (intro acquire_solo[where ?l0.0 = l0]) (simp_all add: call)
  have upd: "(?ls k)[k := User l1] = ?ls (Suc k)"
    using Suc.prems by (intro nth_equalityI) (auto simp: nth_list_update)
  have "concat (map (\<lambda>t. replicate 6 (Run t 0)) [0..<Suc k])
      = concat (map (\<lambda>t. replicate 6 (Run t 0)) [0..<k]) @ replicate 6 (Run k 0)"
    by simp
  then show ?case
    using run_append_Step[OF IH step] upd by (simp add: algebra_simps)
qed

text \<open>A thread waiting in \<open>semc_wait\<close> on a zero count stays there, whatever step is made,
  until the store of a \<open>semc_post\<close> makes the count one.\<close>

lemma blocked_step:
  assumes sem: "sem_inv (ls, u, s)" and z: "count s = 0"
    and t: "t < length ls" "ls ! t = InWait p l" "waiting p"
    and st: "sys_step prog e (ls, u, s) = Step (ls', u', s')"
  shows "(count s' = 0 \<and> (\<exists>p'. ls' ! t = InWait p' l \<and> waiting p'))
    \<or> (count s' = 1 \<and> (\<exists>h ch lh. e = Run h ch \<and> ls ! h = InPost (PStore 0) lh))"
proof -
  from count_step[OF sem st] z
  consider (same) "count s' = 0"
    | (up) "count s' = 1" "\<exists>h ch lh. e = Run h ch \<and> ls ! h = InPost (PStore 0) lh"
    by auto
  then show ?thesis
  proof cases
    case up
    then show ?thesis by blast
  next
    case same
    have "\<exists>p'. ls' ! t = InWait p' l \<and> waiting p'"
      using st
    proof (cases rule: sys_step_cases)
      case (wake t')
      then show ?thesis using t by auto
    next
      case (run t' ch f' u1 s1)
      show ?thesis
      proof (cases "t' = t")
        case False
        then show ?thesis using run(4) t by auto
      next
        case True
        from run(3)[unfolded True t(2)] have "\<exists>p'. f' = InWait p' l \<and> waiting p'"
        proof (cases rule: thread_step_cases)
          case (wait p0 l0 r)
          then have [simp]: "p0 = p" "l0 = l" by simp_all
          from wait(2) show ?thesis
            by (cases rule: semc_wait_step_cases) (use wait(4) t(3) z in auto)
        qed simp_all
        then show ?thesis using run(4) True t(1) by auto
      qed
    qed
    with same show ?thesis by blast
  qed
qed

lemma permits_reachable:
  assumes "paired prog perm" "\<not> perm l0" "0 \<le> n"
    and "run prog es (spawn W l0 u0 (semc_init n)) = Step (ls, u, s)"
  shows "sem_inv (ls, u, s)" "permit_inv n perm (ls, u, s)"
proof -
  have "sem_inv (ls, u, s) \<and> permit_inv n perm (ls, u, s)"
    using assms(1,4)
    by (rule sem_permit_run) (simp add: sem_inv_spawn permit_inv_spawn assms)
  then show "sem_inv (ls, u, s)" "permit_inv n perm (ls, u, s)" by simp_all
qed

text \<open>
  Claim C3. For a semaphore initialised with \<open>n\<close> permits and workers that use it in pairs:
  in every interleaving the permits held and the count add up to \<open>n\<close>, so no more than
  \<open>n\<close> threads hold one; \<open>k \<le> n\<close> threads that call \<open>semc_wait\<close> one after the other all
  return from it, leaving the count at \<open>n - k\<close>. On a zero count a further \<open>semc_wait\<close>
  ends up blocked in \<open>pthread_cond_wait\<close> with no step to make, and a thread waiting in
  \<open>semc_wait\<close> stays waiting until the store of a \<open>semc_post\<close> makes the count one.
  \<open>semc_post\<close> run on its own raises the count by exactly one and takes one thread out of
  the blocked ones if there is any; after it, that thread returns from its \<open>semc_wait\<close>.
\<close>

theorem semc_permits:
  "(paired prog perm \<and> \<not> perm l0 \<and> 0 \<le> n
      \<and> run prog es (spawn W l0 u0 (semc_init n)) = Step (ls, u, s) \<longrightarrow>
        count s + int (permits_held perm ls) = n \<and> 0 \<le> count s \<and> int (permits_held perm ls) \<le> n
        \<and> (\<forall>t p l e ls' u' s'.
              count s = 0 \<and> t < length ls \<and> ls ! t = InWait p l \<and> waiting p
              \<and> sys_step prog e (ls, u, s) = Step (ls', u', s') \<longrightarrow>
                (count s' = 0 \<and> (\<exists>p'. ls' ! t = InWait p' l \<and> waiting p'))
                \<or> (count s' = 1 \<and> (\<exists>h ch lh. e = Run h ch \<and> ls ! h = InPost (PStore 0) lh))))
   \<and> ((\<forall>t u. prog t l0 u = CallWait l1) \<and> k \<le> W \<and> int k \<le> n \<longrightarrow>
        run prog (concat (map (\<lambda>t. replicate 6 (Run t 0)) [0..<k])) (spawn W l0 u0 (semc_init n))
          = Step (map (\<lambda>t. User (if t < k then l1 else l0)) [0..<W], u0,
                  \<lparr>count = n - int k, m = None, cv = {}\<rparr>))
   \<and> (w < length ls \<and> ls ! w = User l0 \<and> prog w l0 u = CallWait l1 \<longrightarrow>
        run prog (replicate 4 (Run w ch)) (ls, u, \<lparr>count = 0, m = None, cv = V\<rparr>)
          = Step (ls[w := InWait WSleep l1], u, \<lparr>count = 0, m = None, cv = insert w V\<rparr>)
        \<and> sys_step prog (Run w ch')
             (ls[w := InWait WSleep l1], u, \<lparr>count = 0, m = None, cv = insert w V\<rparr>) = NoStep)
   \<and> (h < length ls \<and> ls ! h = User lh \<and> prog h lh u = CallPost lh' \<and> c \<noteq> INT_MAX
        \<and> (V = {} \<or> w \<in> V) \<longrightarrow>
        run prog (replicate 6 (Run h w)) (ls, u, \<lparr>count = c, m = None, cv = V\<rparr>)
          = Step (ls[h := User lh'], u, \<lparr>count = c + 1, m = None, cv = V - {w}\<rparr>))
   \<and> (h < length ls \<and> ls ! h = User lh \<and> prog h lh u = CallPost lh' \<and> c \<noteq> INT_MAX \<and> 0 \<le> c
        \<and> w < length ls \<and> ls ! w = InWait WSleep lw \<and> w \<in> V \<and> h \<noteq> w \<longrightarrow>
        run prog (replicate 6 (Run h w) @ replicate 6 (Run w ch))
            (ls, u, \<lparr>count = c, m = None, cv = V\<rparr>)
          = Step (ls[h := User lh', w := User lw], u, \<lparr>count = c, m = None, cv = V - {w}\<rparr>))"
proof -
  have A: "count s + int (permits_held perm ls) = n \<and> 0 \<le> count s \<and> int (permits_held perm ls) \<le> n
        \<and> (\<forall>t p l e ls' u' s'.
              count s = 0 \<and> t < length ls \<and> ls ! t = InWait p l \<and> waiting p
              \<and> sys_step prog e (ls, u, s) = Step (ls', u', s') \<longrightarrow>
                (count s' = 0 \<and> (\<exists>p'. ls' ! t = InWait p' l \<and> waiting p'))
                \<or> (count s' = 1 \<and> (\<exists>h ch lh. e = Run h ch \<and> ls ! h = InPost (PStore 0) lh)))"
    if h: "paired prog perm" "\<not> perm l0" "0 \<le> n"
      "run prog es (spawn W l0 u0 (semc_init n)) = Step (ls, u, s)"
  proof -
    note sem = permits_reachable(1)[OF h] and per = permits_reachable(2)[OF h]
    from per have "count s + int (permits_held perm ls) = n" by (simp add: permit_inv_def)
    moreover note sem_invD(1)[OF sem] permits_bound[OF sem per]
    moreover have "(count s' = 0 \<and> (\<exists>p'. ls' ! t = InWait p' l \<and> waiting p'))
                \<or> (count s' = 1 \<and> (\<exists>h ch lh. e = Run h ch \<and> ls ! h = InPost (PStore 0) lh))"
      if "count s = 0 \<and> t < length ls \<and> ls ! t = InWait p l \<and> waiting p
              \<and> sys_step prog e (ls, u, s) = Step (ls', u', s')" for t p l e ls' u' s'
      using that by (intro blocked_step[OF sem]) auto
    ultimately show ?thesis by blast
  qed
  have B: "run prog (concat (map (\<lambda>t. replicate 6 (Run t 0)) [0..<k])) (spawn W l0 u0 (semc_init n))
          = Step (map (\<lambda>t. User (if t < k then l1 else l0)) [0..<W], u0,
                  \<lparr>count = n - int k, m = None, cv = {}\<rparr>)"
    if "(\<forall>t u. prog t l0 u = CallWait l1) \<and> k \<le> W \<and> int k \<le> n"
    using that by (intro acquire_all) auto
  have C: "run prog (replicate 4 (Run w ch)) (ls, u, \<lparr>count = 0, m = None, cv = V\<rparr>)
          = Step (ls[w := InWait WSleep l1], u, \<lparr>count = 0, m = None, cv = insert w V\<rparr>)
        \<and> sys_step prog (Run w ch')
             (ls[w := InWait WSleep l1], u, \<lparr>count = 0, m = None, cv = insert w V\<rparr>) = NoStep"
    if "w < length ls \<and> ls ! w = User l0 \<and> prog w l0 u = CallWait l1"
  proof -
    from that have 1: "w < length ls" and 2: "ls ! w = User l0" and 3: "prog w l0 u = CallWait l1"
      by simp_all
    show ?thesis
      using acquire_blocks(1)[where prog = prog, OF 1 2 3] acquire_blocks(2)[where prog = prog, OF 1 2 3]
      by blast
  qed
  have D: "run prog (replicate 6 (Run h w)) (ls, u, \<lparr>count = c, m = None, cv = V\<rparr>)
          = Step (ls[h := User lh'], u, \<lparr>count = c + 1, m = None, cv = V - {w}\<rparr>)"
    if "h < length ls \<and> ls ! h = User lh \<and> prog h lh u = CallPost lh' \<and> c \<noteq> INT_MAX
        \<and> (V = {} \<or> w \<in> V)"
    using that by (intro release_solo) auto
  have E: "run prog (replicate 6 (Run h w) @ replicate 6 (Run w ch))
            (ls, u, \<lparr>count = c, m = None, cv = V\<rparr>)
          = Step (ls[h := User lh', w := User lw], u, \<lparr>count = c, m = None, cv = V - {w}\<rparr>)"
    if "h < length ls \<and> ls ! h = User lh \<and> prog h lh u = CallPost lh' \<and> c \<noteq> INT_MAX \<and> 0 \<le> c
        \<and> w < length ls \<and> ls ! w = InWait WSleep lw \<and> w \<in> V \<and> h \<noteq> w"
    using that by (intro release_unblocks) auto
  from A B C D E show ?thesis by blast
qed

text \<open>Witness for C3: the binary-semaphore worker, two threads, one permit. Thread 0 takes
  the permit, thread 1 ends up blocked; when thread 0 has released, thread 1 returns from
  its \<open>semc_wait\<close>.\<close>

theorem semc_permits_witness:
  "run (inc_with_sem_binary 1) (replicate 7 (Run 0 0) @ replicate 5 (Run 1 0))
      (spawn 2 (worker_start BTest) \<lparr>counter = 0, g_lock = None\<rparr> (semc_init 1))
     = Step ([User \<lparr>pc = BLoad, i = 0, tmp = 0\<rparr>, InWait WSleep \<lparr>pc = BLoad, i = 0, tmp = 0\<rparr>],
             \<lparr>counter = 0, g_lock = None\<rparr>, \<lparr>count = 0, m = None, cv = {1}\<rparr>)
   \<and> permits_held bin_perm
        [User \<lparr>pc = BLoad, i = 0, tmp = 0\<rparr>, InWait WSleep \<lparr>pc = BLoad, i = 0, tmp = 0\<rparr>] = 1
   \<and> run (inc_with_sem_binary 1) (replicate 6 (Run 0 0))
        (spawn 2 \<lparr>pc = BWait, i = 0, tmp = 0\<rparr> \<lparr>counter = 0, g_lock = None\<rparr> (semc_init 1))
     = Step ([User \<lparr>pc = BLoad, i = 0, tmp = 0\<rparr>, User \<lparr>pc = BWait, i = 0, tmp = 0\<rparr>],
             \<lparr>counter = 0, g_lock = None\<rparr>, \<lparr>count = 0, m = None, cv = {}\<rparr>)
   \<and> run (inc_with_sem_binary 1) (replicate 4 (Run 1 0))
        ([User \<lparr>pc = BLoad, i = 0, tmp = 0\<rparr>, User \<lparr>pc = BWait, i = 0, tmp = 0\<rparr>],
         \<lparr>counter = 0, g_lock = None\<rparr>, \<lparr>count = 0, m = None, cv = {}\<rparr>)
     = Step ([User \<lparr>pc = BLoad, i = 0, tmp = 0\<rparr>, InWait WSleep \<lparr>pc = BLoad, i = 0, tmp = 0\<rparr>],
             \<lparr>counter = 0, g_lock = None\<rparr>, \<lparr>count = 0, m = None, cv = {1}\<rparr>)
   \<and> sys_step (inc_with_sem_binary 1) (Run 1 0)
        ([User \<lparr>pc = BLoad, i = 0, tmp = 0\<rparr>, InWait WSleep \<lparr>pc = BLoad, i = 0, tmp = 0\<rparr>],
         \<lparr>counter = 0, g_lock = None\<rparr>, \<lparr>count = 0, m = None, cv = {1}\<rparr>) = NoStep
   \<and> run (inc_with_sem_binary 1) (replicate 6 (Run 0 1))
        ([User \<lparr>pc = BPost, i = 0, tmp = 0\<rparr>, InWait WSleep \<lparr>pc = BLoad, i = 0, tmp = 0\<rparr>],
         \<lparr>counter = 1, g_lock = None\<rparr>, \<lparr>count = 0, m = None, cv = {1}\<rparr>)
     = Step ([User \<lparr>pc = BIncr, i = 0, tmp = 0\<rparr>, InWait WSleep \<lparr>pc = BLoad, i = 0, tmp = 0\<rparr>],
             \<lparr>counter = 1, g_lock = None\<rparr>, \<lparr>count = 1, m = None, cv = {}\<rparr>)
   \<and> run (inc_with_sem_binary 1) (replicate 6 (Run 0 1) @ replicate 6 (Run 1 0))
        ([User \<lparr>pc = BPost, i = 0, tmp = 0\<rparr>, InWait WSleep \<lparr>pc = BLoad, i = 0, tmp = 0\<rparr>],
         \<lparr>counter = 1, g_lock = None\<rparr>, \<lparr>count = 0, m = None, cv = {1}\<rparr>)
     = Step ([User \<lparr>pc = BIncr, i = 0, tmp = 0\<rparr>, User \<lparr>pc = BLoad, i = 0, tmp = 0\<rparr>],
             \<lparr>counter = 1, g_lock = None\<rparr>, \<lparr>count = 0, m = None, cv = {}\<rparr>)"
proof -
  let ?P = "inc_with_sem_binary 1"
  let ?u = "\<lparr>counter = 0, g_lock = None\<rparr>" and ?v = "\<lparr>counter = 1, g_lock = None\<rparr>"
  let ?load = "\<lparr>pc = BLoad, i = 0, tmp = 0\<rparr>" and ?wait = "\<lparr>pc = BWait, i = 0, tmp = 0\<rparr>"
  let ?post = "\<lparr>pc = BPost, i = 0, tmp = 0\<rparr>" and ?incr = "\<lparr>pc = BIncr, i = 0, tmp = 0\<rparr>"
  let ?lsA = "[User ?load, InWait WSleep ?load]"
  let ?lsC = "[User ?load, User ?wait]"
  let ?lsD = "[User ?post, InWait WSleep ?load]"
  let ?esA = "replicate 7 (Run 0 0) @ replicate 5 (Run 1 0)"
  have rA: "run ?P ?esA (spawn 2 (worker_start BTest) ?u (semc_init 1))
      = Step (?lsA, ?u, \<lparr>count = 0, m = None, cv = {1}\<rparr>)"
    by (simp add: spawn_def worker_start_def semc_init_def numeral_eq_Suc
        thread_step_def inc_with_sem_binary_def mutex_lock_def mutex_unlock_def INT_MIN_def)
  have a: "count \<lparr>count = 0, m = None, cv = {1}\<rparr> + int (permits_held bin_perm ?lsA) = 1"
    using semc_permits[where prog = ?P and perm = bin_perm and ?l0.0 = "worker_start BTest"
        and n = 1 and es = ?esA and W = 2 and ?u0.0 = ?u and ls = ?lsA and u = ?u
        and s = "\<lparr>count = 0, m = None, cv = {1}\<rparr>"] rA bin_paired[of 1]
    by (simp add: bin_perm_def worker_start_def)
  have b: "run ?P (concat (map (\<lambda>t. replicate 6 (Run t 0)) [0..<1])) (spawn 2 ?wait ?u (semc_init 1))
      = Step (map (\<lambda>t. User (if t < 1 then ?load else ?wait)) [0..<2], ?u,
              \<lparr>count = 1 - int 1, m = None, cv = {}\<rparr>)"
    using semc_permits[where prog = ?P and ?l0.0 = ?wait and ?l1.0 = ?load and k = 1 and W = 2
        and n = 1 and ?u0.0 = ?u]
    by (simp add: inc_with_sem_binary_def)
  have c: "run ?P (replicate 4 (Run 1 0)) (?lsC, ?u, \<lparr>count = 0, m = None, cv = {}\<rparr>)
          = Step (?lsC[1 := InWait WSleep ?load], ?u, \<lparr>count = 0, m = None, cv = insert 1 {}\<rparr>)
        \<and> sys_step ?P (Run 1 0)
             (?lsC[1 := InWait WSleep ?load], ?u, \<lparr>count = 0, m = None, cv = insert 1 {}\<rparr>) = NoStep"
    using semc_permits[where prog = ?P and w = 1 and ls = ?lsC and ?l0.0 = ?wait and ?l1.0 = ?load
        and u = ?u and V = "{}" and ch = 0 and ch' = 0]
    by (simp add: inc_with_sem_binary_def)
  have d: "run ?P (replicate 6 (Run 0 1)) (?lsD, ?v, \<lparr>count = 0, m = None, cv = {1}\<rparr>)
          = Step (?lsD[0 := User ?incr], ?v, \<lparr>count = 0 + 1, m = None, cv = {1} - {1}\<rparr>)"
    using semc_permits[where prog = ?P and h = 0 and ls = ?lsD and lh = ?post and lh' = ?incr
        and u = ?v and V = "{1}" and w = 1 and c = 0]
    by (simp add: inc_with_sem_binary_def INT_MAX_def)
  have e: "run ?P (replicate 6 (Run 0 1) @ replicate 6 (Run 1 0))
            (?lsD, ?v, \<lparr>count = 0, m = None, cv = {1}\<rparr>)
          = Step (?lsD[0 := User ?incr, 1 := User ?load], ?v, \<lparr>count = 0, m = None, cv = {1} - {1}\<rparr>)"
    using semc_permits[where prog = ?P and h = 0 and ls = ?lsD and lh = ?post and lh' = ?incr
        and u = ?v and V = "{1}" and w = 1 and c = 0 and lw = ?load and ch = 0]
    by (simp add: inc_with_sem_binary_def INT_MAX_def)
  from a have a': "permits_held bin_perm ?lsA = 1" by simp
  from rA a' b c d e show ?thesis by (simp add: spawn_def numeral_eq_Suc)
qed

section \<open>The three-permit scenario\<close>

lemma three_iter_solo:
  assumes "t < length ls" "ls ! t = User \<lparr>pc = TTest, i = j, tmp = x\<rparr>" "j < K" "0 < c" "c \<le> INT_MAX"
  shows "run (inc_with_sem_three K) (replicate 17 (Run t 0)) (ls, u, \<lparr>count = c, m = None, cv = {}\<rparr>)
    = Step (ls[t := User \<lparr>pc = TTest, i = Suc j, tmp = counter u\<rparr>], u\<lparr>counter := counter u + 1\<rparr>,
            \<lparr>count = c, m = None, cv = {}\<rparr>)"
  using assms
  by (simp add: numeral_eq_Suc thread_step_def inc_with_sem_three_def mutex_lock_def
      mutex_unlock_def cond_signal_def INT_MIN_def INT_MAX_def Let_def)

lemma three_exit_solo:
  assumes "t < length ls" "ls ! t = User \<lparr>pc = TTest, i = K, tmp = x\<rparr>"
  shows "run (inc_with_sem_three K) [Run t 0] (ls, u, s)
    = Step (ls[t := User \<lparr>pc = TReturn, i = K, tmp = x\<rparr>], u, s)"
  using assms by (simp add: thread_step_def inc_with_sem_three_def)

lemma three_thread_solo:
  assumes "t < length ls" "ls ! t = User \<lparr>pc = TTest, i = j, tmp = x\<rparr>" "j \<le> K" "0 < c" "c \<le> INT_MAX"
  shows "\<exists>es x'. run (inc_with_sem_three K) es (ls, u, \<lparr>count = c, m = None, cv = {}\<rparr>)
    = Step (ls[t := User \<lparr>pc = TReturn, i = K, tmp = x'\<rparr>], u\<lparr>counter := counter u + int (K - j)\<rparr>,
            \<lparr>count = c, m = None, cv = {}\<rparr>)"
  using assms(1-3)
proof (induction "K - j" arbitrary: j x ls u)
  case 0
  then have jK: "j = K" by simp
  have "run (inc_with_sem_three K) [Run t 0] (ls, u, \<lparr>count = c, m = None, cv = {}\<rparr>)
    = Step (ls[t := User \<lparr>pc = TReturn, i = K, tmp = x\<rparr>], u, \<lparr>count = c, m = None, cv = {}\<rparr>)"
    using "0.prems" jK by (intro three_exit_solo) auto
  moreover have "u\<lparr>counter := counter u + int (K - j)\<rparr> = u" using jK by simp
  ultimately show ?case by (intro exI[of _ "[Run t 0]"] exI[of _ x]) (simp only:)
next
  case (Suc d)
  then have lt: "j < K" by simp
  let ?ls = "ls[t := User \<lparr>pc = TTest, i = Suc j, tmp = counter u\<rparr>]"
  let ?u = "u\<lparr>counter := counter u + 1\<rparr>"
  have 1: "run (inc_with_sem_three K) (replicate 17 (Run t 0)) (ls, u, \<lparr>count = c, m = None, cv = {}\<rparr>)
    = Step (?ls, ?u, \<lparr>count = c, m = None, cv = {}\<rparr>)"
    using Suc.prems lt assms(4,5) by (intro three_iter_solo) auto
  have "\<exists>es x'. run (inc_with_sem_three K) es (?ls, ?u, \<lparr>count = c, m = None, cv = {}\<rparr>)
    = Step (?ls[t := User \<lparr>pc = TReturn, i = K, tmp = x'\<rparr>], ?u\<lparr>counter := counter ?u + int (K - Suc j)\<rparr>,
            \<lparr>count = c, m = None, cv = {}\<rparr>)"
    using Suc.hyps(2) Suc.prems lt by (intro Suc.hyps(1)) auto
  then obtain es x' where 2: "run (inc_with_sem_three K) es (?ls, ?u, \<lparr>count = c, m = None, cv = {}\<rparr>)
    = Step (?ls[t := User \<lparr>pc = TReturn, i = K, tmp = x'\<rparr>], ?u\<lparr>counter := counter ?u + int (K - Suc j)\<rparr>,
            \<lparr>count = c, m = None, cv = {}\<rparr>)" by blast
  have "?u\<lparr>counter := counter ?u + int (K - Suc j)\<rparr> = u\<lparr>counter := counter u + int (K - j)\<rparr>"
    using lt by (simp add: of_nat_diff)
  with run_append_Step[OF 1 2] show ?case by auto
qed

text \<open>Running the threads from \<open>k\<close> on one after the other, each on its own from its start
  to its return.\<close>

lemma finish_rest:
  assumes solo: "\<And>t ls u. t < length ls \<Longrightarrow> ls ! t = User l0 \<Longrightarrow>
      \<exists>es l'. run prog es (ls, u, s0) = Step (ls[t := User l'], u\<lparr>counter := counter u + d\<rparr>, s0)
        \<and> fin l'"
    and "k \<le> length ls" "\<forall>t. k \<le> t \<and> t < length ls \<longrightarrow> ls ! t = User l0"
  shows "\<exists>es ls'. run prog es (ls, u, s0)
        = Step (ls', u\<lparr>counter := counter u + int (length ls - k) * d\<rparr>, s0)
      \<and> length ls' = length ls \<and> (\<forall>t<k. ls' ! t = ls ! t)
      \<and> (\<forall>t. k \<le> t \<and> t < length ls \<longrightarrow> (\<exists>l'. ls' ! t = User l' \<and> fin l'))"
  using assms(2,3)
proof (induction "length ls - k" arbitrary: k ls u)
  case 0
  then have "k = length ls" by simp
  then have "run prog [] (ls, u, s0) = Step (ls, u\<lparr>counter := counter u + int (length ls - k) * d\<rparr>, s0)"
    by simp
  then show ?case using \<open>k = length ls\<close> by (rule_tac x = "[]" in exI, rule_tac x = ls in exI) auto
next
  case (Suc n)
  then have k: "k < length ls" by simp
  with Suc.prems have "ls ! k = User l0" by simp
  from solo[OF k this, of u] obtain es1 l' where
    1: "run prog es1 (ls, u, s0) = Step (ls[k := User l'], u\<lparr>counter := counter u + d\<rparr>, s0)"
    and f: "fin l'" by blast
  let ?ls = "ls[k := User l']" and ?u = "u\<lparr>counter := counter u + d\<rparr>"
  have "\<exists>es ls'. run prog es (?ls, ?u, s0)
        = Step (ls', ?u\<lparr>counter := counter ?u + int (length ?ls - Suc k) * d\<rparr>, s0)
      \<and> length ls' = length ?ls \<and> (\<forall>t<Suc k. ls' ! t = ?ls ! t)
      \<and> (\<forall>t. Suc k \<le> t \<and> t < length ?ls \<longrightarrow> (\<exists>l'. ls' ! t = User l' \<and> fin l'))"
    using Suc.hyps(2) Suc.prems k by (intro Suc.hyps(1)) auto
  then obtain es2 ls' where
    2: "run prog es2 (?ls, ?u, s0)
        = Step (ls', ?u\<lparr>counter := counter ?u + int (length ?ls - Suc k) * d\<rparr>, s0)"
    and len: "length ls' = length ?ls" and low: "\<forall>t<Suc k. ls' ! t = ?ls ! t"
    and high: "\<forall>t. Suc k \<le> t \<and> t < length ?ls \<longrightarrow> (\<exists>l'. ls' ! t = User l' \<and> fin l')"
    by blast
  have u: "?u\<lparr>counter := counter ?u + int (length ?ls - Suc k) * d\<rparr>
      = u\<lparr>counter := counter u + int (length ls - k) * d\<rparr>"
  proof -
    have "int (length ls - k) = int (length ls - Suc k) + 1" using k by simp
    then show ?thesis by (simp add: algebra_simps)
  qed
  have r: "run prog (es1 @ es2) (ls, u, s0)
      = Step (ls', u\<lparr>counter := counter u + int (length ls - k) * d\<rparr>, s0)"
    using run_append_Step[OF 1 2] u by simp
  have lo: "\<forall>t<k. ls' ! t = ls ! t" using low by simp
  have hi: "\<exists>l'. ls' ! t = User l' \<and> fin l'" if "k \<le> t \<and> t < length ls" for t
  proof (cases "t = k")
    case True
    then show ?thesis using low k f by simp
  next
    case False
    then show ?thesis using high that by simp
  qed
  from r len lo hi show ?case by (rule_tac x = "es1 @ es2" in exI, rule_tac x = ls' in exI) auto
qed

lemma three_both_inside:
  assumes "2 \<le> W" "1 \<le> K"
  shows "\<exists>ls. run (inc_with_sem_three K) (replicate 7 (Run 0 0) @ replicate 7 (Run 1 0) @ [Run 0 0, Run 1 0])
        (counter_scenario W TTest 3) = Step (ls, \<lparr>counter = 0, g_lock = None\<rparr>, \<lparr>count = 1, m = None, cv = {}\<rparr>)
      \<and> ls ! 0 = User \<lparr>pc = TSpin, i = 0, tmp = 0\<rparr> \<and> ls ! 1 = User \<lparr>pc = TSpin, i = 0, tmp = 0\<rparr>"
  using assms
  by (simp add: counter_scenario_def spawn_def worker_start_def semc_init_def numeral_eq_Suc
      thread_step_def inc_with_sem_three_def mutex_lock_def mutex_unlock_def INT_MIN_def Let_def)

lemma three_lost_update_prefix:
  assumes "2 \<le> W" "1 \<le> K"
  shows "\<exists>ls. run (inc_with_sem_three K) lost_update_prefix (counter_scenario W TTest 3)
        = Step (ls, \<lparr>counter = 1, g_lock = None\<rparr>, \<lparr>count = 3, m = None, cv = {}\<rparr>)
      \<and> length ls = W
      \<and> ls ! 0 = User \<lparr>pc = TTest, i = 1, tmp = 0\<rparr> \<and> ls ! 1 = User \<lparr>pc = TTest, i = 1, tmp = 0\<rparr>
      \<and> (\<forall>t. 2 \<le> t \<and> t < W \<longrightarrow> ls ! t = User (worker_start TTest))"
  using assms
  by (simp add: lost_update_prefix_def counter_scenario_def spawn_def worker_start_def semc_init_def
      numeral_eq_Suc thread_step_def inc_with_sem_three_def mutex_lock_def mutex_unlock_def
      cond_signal_def INT_MIN_def INT_MAX_def Let_def)

lemma three_lost_update:
  assumes W: "2 \<le> W" and K: "1 \<le> K"
  shows "\<exists>es ls u s. run (inc_with_sem_three K) es (counter_scenario W TTest 3) = Step (ls, u, s)
      \<and> joined (inc_with_sem_three K) (ls, u, s) \<and> counter u = int (W * K) - 1"
proof -
  let ?P = "inc_with_sem_three K"
  let ?Q = "\<lparr>count = 3, m = None, cv = {}\<rparr>"
  have three: "(0::int) < 3" "(3::int) \<le> INT_MAX" by (simp_all add: INT_MAX_def)
  from three_lost_update_prefix[OF W K] obtain ls1 where
    r1: "run ?P lost_update_prefix (counter_scenario W TTest 3)
        = Step (ls1, \<lparr>counter = 1, g_lock = None\<rparr>, ?Q)"
    and len1: "length ls1 = W"
    and a0: "ls1 ! 0 = User \<lparr>pc = TTest, i = 1, tmp = 0\<rparr>"
    and a1: "ls1 ! 1 = User \<lparr>pc = TTest, i = 1, tmp = 0\<rparr>"
    and rest1: "\<forall>t. 2 \<le> t \<and> t < W \<longrightarrow> ls1 ! t = User (worker_start TTest)"
    by blast
  let ?u1 = "\<lparr>counter = 1, g_lock = None\<rparr>"
  have "0 < length ls1" using len1 W by simp
  from three_thread_solo[OF this a0 K three, of ?u1] obtain es2 x0 where
    r2: "run ?P es2 (ls1, ?u1, ?Q)
        = Step (ls1[0 := User \<lparr>pc = TReturn, i = K, tmp = x0\<rparr>],
                ?u1\<lparr>counter := counter ?u1 + int (K - 1)\<rparr>, ?Q)"
    by blast
  let ?ls2 = "ls1[0 := User \<lparr>pc = TReturn, i = K, tmp = x0\<rparr>]"
  let ?u2 = "?u1\<lparr>counter := counter ?u1 + int (K - 1)\<rparr>"
  have "1 < length ?ls2" using len1 W by simp
  moreover have "?ls2 ! 1 = User \<lparr>pc = TTest, i = 1, tmp = 0\<rparr>" using a1 by simp
  ultimately obtain es3 x1 where
    r3: "run ?P es3 (?ls2, ?u2, ?Q)
        = Step (?ls2[1 := User \<lparr>pc = TReturn, i = K, tmp = x1\<rparr>],
                ?u2\<lparr>counter := counter ?u2 + int (K - 1)\<rparr>, ?Q)"
    using three_thread_solo[of 1 ?ls2 1 0 K 3 ?u2] K three by blast
  let ?ls3 = "?ls2[1 := User \<lparr>pc = TReturn, i = K, tmp = x1\<rparr>]"
  let ?u3 = "?u2\<lparr>counter := counter ?u2 + int (K - 1)\<rparr>"
  have solo: "\<exists>es l'. run ?P es (ls, u, ?Q)
        = Step (ls[t := User l'], u\<lparr>counter := counter u + int K\<rparr>, ?Q) \<and> pc l' = TReturn"
    if "t < length ls" "ls ! t = User (worker_start TTest)" for t ls u
  proof -
    from that(2) have "ls ! t = User \<lparr>pc = TTest, i = 0, tmp = 0\<rparr>" by (simp add: worker_start_def)
    from three_thread_solo[OF that(1) this _ three, of K u] obtain es x' where
      "run ?P es (ls, u, ?Q)
        = Step (ls[t := User \<lparr>pc = TReturn, i = K, tmp = x'\<rparr>], u\<lparr>counter := counter u + int (K - 0)\<rparr>, ?Q)"
      by blast
    then show ?thesis
      by (rule_tac x = es in exI, rule_tac x = "\<lparr>pc = TReturn, i = K, tmp = x'\<rparr>" in exI) simp
  qed
  have "2 \<le> length ?ls3" using len1 W by simp
  moreover have "\<forall>t. 2 \<le> t \<and> t < length ?ls3 \<longrightarrow> ?ls3 ! t = User (worker_start TTest)"
    using rest1 len1 by simp
  ultimately obtain es4 ls' where
    r4: "run ?P es4 (?ls3, ?u3, ?Q)
        = Step (ls', ?u3\<lparr>counter := counter ?u3 + int (length ?ls3 - 2) * int K\<rparr>, ?Q)"
    and len': "length ls' = length ?ls3" and low: "\<forall>t<2. ls' ! t = ?ls3 ! t"
    and high: "\<forall>t. 2 \<le> t \<and> t < length ?ls3 \<longrightarrow> (\<exists>l'. ls' ! t = User l' \<and> pc l' = TReturn)"
    using finish_rest[where prog = ?P and ?l0.0 = "worker_start TTest" and ?s0.0 = ?Q
        and d = "int K" and fin = "\<lambda>l. pc l = TReturn" and k = 2 and ls = ?ls3 and u = ?u3, OF solo]
    by blast
  let ?u4 = "?u3\<lparr>counter := counter ?u3 + int (length ?ls3 - 2) * int K\<rparr>"
  have run: "run ?P (lost_update_prefix @ es2 @ es3 @ es4) (counter_scenario W TTest 3)
      = Step (ls', ?u4, ?Q)"
    by (intro run_append_Step[OF r1] run_append_Step[OF r2] run_append_Step[OF r3] r4)
  have ret: "\<exists>l'. ls' ! t = User l' \<and> pc l' = TReturn" if "t < W" for t
  proof -
    consider "t = 0" | "t = 1" | "2 \<le> t" by linarith
    then show ?thesis
    proof cases
      case 1
      then show ?thesis using low len1 W by simp
    next
      case 2
      then show ?thesis using low len1 W by simp
    next
      case 3
      then show ?thesis using high that len1 by simp
    qed
  qed
  have j: "joined ?P (ls', ?u4, ?Q)"
    unfolding joined_iff
  proof (intro allI impI)
    fix t assume "t < length ls'"
    with len' len1 have "t < W" by simp
    from ret[OF this] obtain l' where "ls' ! t = User l'" "pc l' = TReturn" by blast
    then show "returned ?P ?u4 (t, ls' ! t)" by (simp add: inc_with_sem_three_def)
  qed
  have "counter ?u4 = 1 + int (K - 1) + int (K - 1) + int (W - 2) * int K"
    using len1 by simp
  also have "\<dots> = int (W * K) - 1"
  proof -
    have "int (K - 1) = int K - 1" "int (W - 2) = int W - 2" using W K by simp_all
    then show ?thesis by (simp add: algebra_simps)
  qed
  finally have c: "counter ?u4 = int (W * K) - 1" .
  from run j c show ?thesis by blast
qed

lemma three_all_inside:
  assumes "3 \<le> W" "1 \<le> K"
  shows "\<exists>ls. run (inc_with_sem_three K)
        (replicate 7 (Run 0 0) @ replicate 7 (Run 1 0) @ replicate 7 (Run 2 0))
        (counter_scenario W TTest 3)
       = Step (ls, \<lparr>counter = 0, g_lock = None\<rparr>, \<lparr>count = 0, m = None, cv = {}\<rparr>)
      \<and> ls ! 0 = User \<lparr>pc = TLoad, i = 0, tmp = 0\<rparr> \<and> ls ! 1 = User \<lparr>pc = TLoad, i = 0, tmp = 0\<rparr>
      \<and> ls ! 2 = User \<lparr>pc = TLoad, i = 0, tmp = 0\<rparr>"
  using assms
  by (simp add: counter_scenario_def spawn_def worker_start_def semc_init_def numeral_eq_Suc
      thread_step_def inc_with_sem_three_def mutex_lock_def mutex_unlock_def INT_MIN_def Let_def)

text \<open>
  Claim C4. The three-permit scenario (w6 \<open>inc_with_sem_three\<close> on a semaphore of three
  permits) gives no mutual exclusion. In every interleaving at most three threads hold a
  permit, and with three or more workers three of them can be past \<open>semc_wait\<close> at once;
  with two or more workers two of them can have read the counter before either writes it
  back; and for every \<open>W \<ge> 2\<close> and \<open>K \<ge> 1\<close> there is an interleaving after which all
  workers have returned and the counter is below \<open>W * K\<close>. With one permit the same worker,
  and the binary-semaphore worker of the harness, always end with exactly \<open>W * K\<close>.
\<close>

theorem three_permits_lose_updates:
  "(2 \<le> W \<and> 1 \<le> K \<longrightarrow>
      (\<exists>es ls u s. run (inc_with_sem_three K) es (counter_scenario W TTest 3) = Step (ls, u, s)
         \<and> joined (inc_with_sem_three K) (ls, u, s) \<and> counter u < int (W * K)))
   \<and> (2 \<le> W \<and> 1 \<le> K \<longrightarrow>
      (\<exists>ls. run (inc_with_sem_three K)
            (replicate 7 (Run 0 0) @ replicate 7 (Run 1 0) @ [Run 0 0, Run 1 0])
            (counter_scenario W TTest 3)
          = Step (ls, \<lparr>counter = 0, g_lock = None\<rparr>, \<lparr>count = 1, m = None, cv = {}\<rparr>)
         \<and> ls ! 0 = User \<lparr>pc = TSpin, i = 0, tmp = 0\<rparr>
         \<and> ls ! 1 = User \<lparr>pc = TSpin, i = 0, tmp = 0\<rparr>))
   \<and> (3 \<le> W \<and> 1 \<le> K \<longrightarrow>
      (\<exists>ls. run (inc_with_sem_three K)
            (replicate 7 (Run 0 0) @ replicate 7 (Run 1 0) @ replicate 7 (Run 2 0))
            (counter_scenario W TTest 3)
          = Step (ls, \<lparr>counter = 0, g_lock = None\<rparr>, \<lparr>count = 0, m = None, cv = {}\<rparr>)
         \<and> ls ! 0 = User \<lparr>pc = TLoad, i = 0, tmp = 0\<rparr>
         \<and> ls ! 1 = User \<lparr>pc = TLoad, i = 0, tmp = 0\<rparr>
         \<and> ls ! 2 = User \<lparr>pc = TLoad, i = 0, tmp = 0\<rparr>))
   \<and> (run (inc_with_sem_three K) es3 (counter_scenario W TTest 3) = Step (ls3, u3, s3) \<longrightarrow>
        int (permits_held three_perm ls3) \<le> 3)
   \<and> (run (inc_with_sem_three K) es1 (counter_scenario W TTest 1) = Step (ls1, u1, s1)
        \<and> joined (inc_with_sem_three K) (ls1, u1, s1) \<longrightarrow> counter u1 = int (W * K))
   \<and> (run (inc_with_sem_binary K) es2 (counter_scenario W BTest 1) = Step (ls2, u2, s2)
        \<and> joined (inc_with_sem_binary K) (ls2, u2, s2) \<longrightarrow> counter u2 = int (W * K))"
proof -
  have A: "\<exists>es ls u s. run (inc_with_sem_three K) es (counter_scenario W TTest 3) = Step (ls, u, s)
         \<and> joined (inc_with_sem_three K) (ls, u, s) \<and> counter u < int (W * K)"
    if "2 \<le> W \<and> 1 \<le> K"
  proof -
    from that three_lost_update[of W K] obtain es ls u s where
      "run (inc_with_sem_three K) es (counter_scenario W TTest 3) = Step (ls, u, s)"
      "joined (inc_with_sem_three K) (ls, u, s)" "counter u = int (W * K) - 1"
      by blast
    then show ?thesis by (rule_tac x = es in exI, rule_tac x = ls in exI, rule_tac x = u in exI,
          rule_tac x = s in exI) simp
  qed
  have D: "int (permits_held three_perm ls3) \<le> 3"
    if r: "run (inc_with_sem_three K) es3 (counter_scenario W TTest 3) = Step (ls3, u3, s3)"
  proof -
    have p: "\<not> three_perm (worker_start TTest)" by (simp add: three_perm_def worker_start_def)
    have z: "(0::int) \<le> 3" by simp
    note r' = r[unfolded counter_scenario_def]
    from permits_bound[OF permits_reachable[OF three_paired p z r']] show ?thesis .
  qed
  from A three_both_inside[of W K] three_all_inside[of W K] D
    three_exact_one_permit[of K es1 W ls1 u1 s1] bin_exact[of K es2 W ls2 u2 s2]
  show ?thesis by blast
qed

text \<open>Witness for C4: two workers, one iteration each. Both read 0 and both write 1; both
  return and the counter is 1, not 2.\<close>

theorem three_permits_lose_updates_witness:
  "(2::nat) \<le> 2 \<and> (1::nat) \<le> 1
   \<and> run (inc_with_sem_three 1) (lost_update_prefix @ [Run 0 0, Run 1 0]) (counter_scenario 2 TTest 3)
      = Step ([User \<lparr>pc = TReturn, i = 1, tmp = 0\<rparr>, User \<lparr>pc = TReturn, i = 1, tmp = 0\<rparr>],
              \<lparr>counter = 1, g_lock = None\<rparr>, \<lparr>count = 3, m = None, cv = {}\<rparr>)
   \<and> int (permits_held three_perm
        [User \<lparr>pc = TReturn, i = 1, tmp = 0\<rparr>, User \<lparr>pc = TReturn, i = 1, tmp = 0\<rparr>]) \<le> 3
   \<and> (\<exists>es ls u s. run (inc_with_sem_three 1) es (counter_scenario 2 TTest 3) = Step (ls, u, s)
         \<and> joined (inc_with_sem_three 1) (ls, u, s) \<and> counter u < int (2 * 1))"
proof -
  let ?ls = "[User \<lparr>pc = TReturn, i = 1, tmp = 0\<rparr>, User \<lparr>pc = TReturn, i = 1, tmp = 0\<rparr>]"
  let ?es = "lost_update_prefix @ [Run 0 0, Run 1 0]"
  have h: "(2::nat) \<le> 2 \<and> (1::nat) \<le> 1" by simp
  have r: "run (inc_with_sem_three 1) ?es (counter_scenario 2 TTest 3)
      = Step (?ls, \<lparr>counter = 1, g_lock = None\<rparr>, \<lparr>count = 3, m = None, cv = {}\<rparr>)"
    by (simp add: lost_update_prefix_def counter_scenario_def spawn_def worker_start_def
        semc_init_def numeral_eq_Suc thread_step_def inc_with_sem_three_def mutex_lock_def
        mutex_unlock_def cond_signal_def INT_MIN_def INT_MAX_def Let_def)
  note T = three_permits_lose_updates[where W = 2 and K = 1 and ?es3.0 = ?es and ?ls3.0 = ?ls
      and ?u3.0 = "\<lparr>counter = 1, g_lock = None\<rparr>" and ?s3.0 = "\<lparr>count = 3, m = None, cv = {}\<rparr>"]
  from T h have "\<exists>es ls u s. run (inc_with_sem_three 1) es (counter_scenario 2 TTest 3) = Step (ls, u, s)
         \<and> joined (inc_with_sem_three 1) (ls, u, s) \<and> counter u < int (2 * 1)"
    by blast
  moreover from T r have "int (permits_held three_perm ?ls) \<le> 3" by blast
  ultimately show ?thesis using h r by blast
qed

section \<open>The race-amplification sequences compared\<close>

lemma spin_loop_eq: "k \<le> n \<Longrightarrow> spin_loop k n = n"
proof (induction "n - k" arbitrary: k)
  case 0
  then show ?case by (subst spin_loop.simps) simp
next
  case (Suc d)
  then have "spin_loop (k + 1) n = n" by (intro Suc.hyps(1)) auto
  with Suc show ?case by (subst spin_loop.simps) simp
qed

lemma busy_spin_eq: "busy_spin n = n"
  by (simp add: busy_spin_def spin_loop_eq)

lemma and_mask_mod:
  "(j::nat) AND 0x1FF = j mod 512" "(j::nat) AND 0x3FF = j mod 1024" "(j::nat) AND 0x7FF = j mod 2048"
proof -
  have "j AND mask 9 = j mod 2 ^ 9" "j AND mask 10 = j mod 2 ^ 10" "j AND mask 11 = j mod 2 ^ 11"
    by (simp_all only: take_bit_eq_mask [symmetric] take_bit_eq_mod)
  moreover have "mask 9 = (0x1FF::nat)" "mask 10 = (0x3FF::nat)" "mask 11 = (0x7FF::nat)"
    by (simp_all add: mask_eq_exp_minus_1)
  ultimately show "(j::nat) AND 0x1FF = j mod 512" "(j::nat) AND 0x3FF = j mod 1024"
    "(j::nat) AND 0x7FF = j mod 2048"
    by simp_all
qed

lemma coarser:
  "(j::nat) mod 2048 = 0 \<Longrightarrow> j mod 1024 = 0" "(j::nat) mod 1024 = 0 \<Longrightarrow> j mod 512 = 0"
  using mod_mod_cancel[of 1024 2048 j] mod_mod_cancel[of 512 1024 j] by simp_all


text \<open>
  Claim C5, as amended. The two unsynchronised counter workers (w6 \<open>inc_no_lock\<close>, w3
  \<open>increment_without_lock_stressed\<close>) share the six-step sequence verbatim: read, yield
  on every 1024th iteration, 50 rounds of busy-waiting, modify, yield on every 2048th
  iteration, write back. The pair worker \<open>touch_pair_without_lock\<close> has the same order
  of read, first yield check, modify, second and coarser yield check, write back, but on
  cadences 512 and 1024 and with no busy-wait, on two fields, and followed by the check
  of the invariant.
\<close>

theorem amplification_sequences:
  "inc_no_lock_iter j = increment_without_lock_stressed_iter j
   \<and> increment_without_lock_stressed_iter j
       = [Load Counter] @ yield_if (j mod 1024 = 0) @ [Spin 50, Bump] @ yield_if (j mod 2048 = 0)
         @ [Store Counter]
   \<and> touch_pair_without_lock_iter j
       = [Load PairA, Load PairB] @ yield_if (j mod 512 = 0) @ [Bump, Bump]
         @ yield_if (j mod 1024 = 0) @ [Store PairA, Store PairB, Check]
   \<and> skeleton (increment_without_lock_stressed_iter j) = [Load Counter, Bump, Store Counter]
   \<and> skeleton (touch_pair_without_lock_iter j)
       = [Load PairA, Load PairB, Bump, Bump, Store PairA, Store PairB, Check]
   \<and> yields_after_modify (increment_without_lock_stressed_iter j)
       \<le> yields_before_modify (increment_without_lock_stressed_iter j)
   \<and> yields_after_modify (touch_pair_without_lock_iter j)
       \<le> yields_before_modify (touch_pair_without_lock_iter j)
   \<and> spins (increment_without_lock_stressed_iter j) = [50]
   \<and> spins (touch_pair_without_lock_iter j) = []"
proof -
  note d = coarser[of j]
  have s: "spin_loop 0 50 = 50" by (simp add: spin_loop_eq)
  show ?thesis
    using d
    by (auto simp: inc_no_lock_iter_def increment_without_lock_stressed_iter_def
        touch_pair_without_lock_iter_def and_mask_mod busy_spin_eq s yield_if_def skeleton_def
        yields_after_modify_def yields_before_modify_def)
qed

text \<open>
  Counterexample to C5 as stated. The sequence is not shared verbatim with the pair
  worker: it never busy-waits where the counter worker spins 50 rounds, and its yields
  come on other iterations (in iteration 512 it yields before the modify and the counter
  worker does not; in iteration 1024 it yields after the modify and the counter worker
  does not).
\<close>

theorem amplification_not_verbatim:
  "spins (increment_without_lock_stressed_iter 0) = [50]
   \<and> spins (touch_pair_without_lock_iter 0) = []
   \<and> yields_before_modify (increment_without_lock_stressed_iter 512) = 0
   \<and> yields_before_modify (touch_pair_without_lock_iter 512) = 1
   \<and> yields_after_modify (increment_without_lock_stressed_iter 1024) = 0
   \<and> yields_after_modify (touch_pair_without_lock_iter 1024) = 1"
proof -
  have s: "spin_loop 0 50 = 50" by (simp add: spin_loop_eq)
  show ?thesis
    by (simp add: increment_without_lock_stressed_iter_def touch_pair_without_lock_iter_def
        and_mask_mod s yield_if_def yields_after_modify_def yields_before_modify_def)
qed

section \<open>The invariant pair under the mutex\<close>

lemma pair_no_calls:
  "touch_pair_with_lock K t l u \<noteq> CallWait l'" "touch_pair_with_lock K t l u \<noteq> CallPost l'"
  by (auto simp: touch_pair_with_lock_def mutex_lock_def mutex_unlock_def Let_def
      split: held_pc.splits)

lemma pair_step_facts:
  assumes "touch_pair_with_lock K t l u = Local l' u'"
    and "pair_held l \<longleftrightarrow> lock u = Some t" "pair_held l \<longrightarrow> pair_rel l u"
    and "lock u = None \<longrightarrow> pair_a u = pair_b u"
  shows "pair_held l' \<longleftrightarrow> lock u' = Some t"
    and "pair_held l' \<longrightarrow> pair_rel l' u'"
    and "lock u' = None \<longrightarrow> pair_a u' = pair_b u'"
    and "lock u' = lock u \<or> (lock u = None \<and> lock u' = Some t) \<or> (lock u = Some t \<and> lock u' = None)"
    and "lock u' \<noteq> lock u \<or> pair_held l \<or> u' = u"
  using assms
  by (auto simp: touch_pair_with_lock_def pair_held_def pair_rel_def mutex_lock_def
      mutex_unlock_def Let_def split: held_pc.splits if_splits)

lemma pair_rel_cong:
  "pair_a u' = pair_a u \<Longrightarrow> pair_b u' = pair_b u \<Longrightarrow> pair_rel l u' = pair_rel l u"
  by (simp add: pair_rel_def split: held_pc.splits)

lemma pair_invD:
  assumes "pair_inv (ls, u, s)" "t < length ls"
  obtains l where "ls ! t = User l" "pair_held l \<longleftrightarrow> lock u = Some t" "pair_held l \<longrightarrow> pair_rel l u"
  using assms unfolding pair_inv_def by (cases "ls ! t") auto

lemma pair_inv_lock:
  assumes "pair_inv (ls, u, s)"
  shows "lock u = None \<longrightarrow> pair_a u = pair_b u" "\<And>t. lock u = Some t \<Longrightarrow> t < length ls"
  using assms unfolding pair_inv_def by (auto split: option.splits)

lemma pair_inv_step:
  assumes inv: "pair_inv c" and st: "sys_step (touch_pair_with_lock K) e c = Step c'"
  shows "pair_inv c'"
proof -
  obtain ls u s where c: "c = (ls, u, s)" by (cases c)
  note inv' = inv[unfolded c]
  from st[unfolded c] show ?thesis
  proof (cases rule: sys_step_cases)
    case (wake t)
    from inv' wake(2) obtain l where "ls ! t = User l" by (rule pair_invD)
    with wake(3) show ?thesis by simp
  next
    case (run t ch f' u' s')
    note lt = \<open>t < length ls\<close>
    from inv' lt obtain l where l: "ls ! t = User l" "pair_held l \<longleftrightarrow> lock u = Some t"
      "pair_held l \<longrightarrow> pair_rel l u"
      by (rule pair_invD)
    from run(3) show ?thesis
    proof (cases rule: thread_step_cases)
      case (local l0 l')
      with l have step: "touch_pair_with_lock K t l u = Local l' u'" by simp
      note facts = pair_step_facts[OF step l(2,3) pair_inv_lock(1)[OF inv']]
      have threads: "case ls[t := f'] ! n of
            User l \<Rightarrow> (pair_held l \<longleftrightarrow> lock u' = Some n) \<and> (pair_held l \<longrightarrow> pair_rel l u')
          | _ \<Rightarrow> False" if n: "n < length ls" for n
      proof (cases "n = t")
        case True
        then show ?thesis using n local(3) facts(1,2) by simp
      next
        case False
        from inv' n obtain k where k: "ls ! n = User k" "pair_held k \<longleftrightarrow> lock u = Some n"
          "pair_held k \<longrightarrow> pair_rel k u"
          by (rule pair_invD)
        have same: "pair_held k \<longleftrightarrow> lock u' = Some n"
          using facts(4) k(2) False by auto
        have "pair_rel k u'" if "pair_held k"
        proof -
          from that k(2) have "lock u = Some n" by simp
          with l(2) False have "\<not> pair_held l" by simp
          moreover from \<open>lock u = Some n\<close> False facts(4) have "lock u' = lock u" by auto
          ultimately have "u' = u" using facts(5) by simp
          with that k(3) show ?thesis by simp
        qed
        with same k(1) False show ?thesis by simp
      qed
      have lck: "case lock u' of None \<Rightarrow> pair_a u' = pair_b u' | Some k \<Rightarrow> k < length (ls[t := f'])"
      proof (cases "lock u'")
        case None
        then show ?thesis using facts(3) by simp
      next
        case (Some k)
        then have "k < length ls"
          using facts(4) lt pair_inv_lock(2)[OF inv', of k] by auto
        with Some show ?thesis by simp
      qed
      show ?thesis
        unfolding run(4) pair_inv_def prod.case using threads lck by simp
    next
      case (callw l0 l')
      with l show ?thesis using pair_no_calls(1)[of K t l u l'] by simp
    next
      case (callp l0 l')
      with l show ?thesis using pair_no_calls(2)[of K t l u l'] by simp
    next
      case (wait p l0 r)
      with l show ?thesis by simp
    next
      case (post p l0 r)
      with l show ?thesis by simp
    qed
  qed
qed

lemma pair_inv_start: "pair_inv (pair_scenario W (worker_start QTest))"
  by (simp add: pair_inv_def pair_scenario_def spawn_def worker_start_def pair_held_def)

lemma pair_inv_run:
  assumes "run (touch_pair_with_lock K) es (pair_scenario W (worker_start QTest)) = Step c"
  shows "pair_inv c"
  using assms pair_inv_start by (rule run_invariant) (rule pair_inv_step)

text \<open>
  Claim C6. In the mutex-guarded pair scenario (w3 \<open>touch_pair_with_lock\<close>, started from
  \<open>a = b = 0\<close>), for every number of workers \<open>W\<close>, every \<open>K\<close> and every interleaving:
  whenever the mutex is free the two fields are equal, and so they are once all workers
  have returned.
\<close>

theorem pair_with_lock_equal:
  "run (touch_pair_with_lock K) es (pair_scenario W (worker_start QTest)) = Step (ls, u, s) \<longrightarrow>
     (lock u = None \<longrightarrow> pair_a u = pair_b u)
     \<and> (joined (touch_pair_with_lock K) (ls, u, s) \<longrightarrow> pair_a u = pair_b u)"
proof (intro impI conjI)
  assume r: "run (touch_pair_with_lock K) es (pair_scenario W (worker_start QTest)) = Step (ls, u, s)"
  then have inv: "pair_inv (ls, u, s)" by (rule pair_inv_run)
  then show free: "pair_a u = pair_b u" if "lock u = None"
    using that pair_inv_lock(1) by blast
  assume j: "joined (touch_pair_with_lock K) (ls, u, s)"
  have "lock u = None"
  proof (cases "lock u")
    case (Some t)
    with inv have t: "t < length ls" by (rule pair_inv_lock(2))
    with inv obtain l where l: "ls ! t = User l" "pair_held l \<longleftrightarrow> lock u = Some t"
      by (rule pair_invD)
    from j[unfolded joined_iff] t l(1) have "touch_pair_with_lock K t l u = Finished"
      by (auto simp: returned_User)
    with l(2) Some show ?thesis
      by (auto simp: touch_pair_with_lock_def pair_held_def mutex_lock_def mutex_unlock_def Let_def
          split: held_pc.splits if_splits)
  qed simp
  then show "pair_a u = pair_b u" by (rule free)
qed

text \<open>Witness for C6: two workers, one iteration each; the second worker reaches the lock
  while the first is between its two increments.\<close>

theorem pair_with_lock_equal_witness:
  "run (touch_pair_with_lock 1)
      (replicate 4 (Run 0 0) @ [Run 1 0] @ replicate 6 (Run 0 0) @ replicate 9 (Run 1 0))
      (pair_scenario 2 (worker_start QTest))
     = Step ([User \<lparr>pc = QReturn, i = 1, tmp = 0\<rparr>, User \<lparr>pc = QReturn, i = 1, tmp = 1\<rparr>],
             \<lparr>pair_a = 2, pair_b = 2, lock = None\<rparr>, semc_init 0)
   \<and> joined (touch_pair_with_lock 1)
       ([User \<lparr>pc = QReturn, i = 1, tmp = 0\<rparr>, User \<lparr>pc = QReturn, i = 1, tmp = 1\<rparr>],
        \<lparr>pair_a = 2, pair_b = 2, lock = None\<rparr>, semc_init 0)
   \<and> pair_a \<lparr>pair_a = 2, pair_b = 2, lock = None\<rparr> = pair_b \<lparr>pair_a = 2, pair_b = 2, lock = None\<rparr>"
proof -
  let ?ls = "[User \<lparr>pc = QReturn, i = 1, tmp = 0\<rparr>, User \<lparr>pc = QReturn, i = 1, tmp = 1\<rparr>]"
  let ?u = "\<lparr>pair_a = 2, pair_b = 2, lock = None\<rparr>"
  let ?es = "replicate 4 (Run 0 0) @ [Run 1 0] @ replicate 6 (Run 0 0) @ replicate 9 (Run 1 0)"
  have r: "run (touch_pair_with_lock 1) ?es (pair_scenario 2 (worker_start QTest))
      = Step (?ls, ?u, semc_init 0)"
    by (simp add: pair_scenario_def spawn_def worker_start_def semc_init_def numeral_eq_Suc
        thread_step_def touch_pair_with_lock_def mutex_lock_def mutex_unlock_def Let_def)
  have j: "joined (touch_pair_with_lock 1) (?ls, ?u, semc_init 0)"
    by (simp add: touch_pair_with_lock_def)
  from pair_with_lock_equal[of 1 ?es 2 ?ls ?u "semc_init 0"] r j
  have "pair_a ?u = pair_b ?u" by blast
  with r j show ?thesis by blast
qed

section \<open>The unsynchronised pair worker and its early return\<close>

lemma free_local: "local_pres (touch_pair_without_lock K) (free_ok K)"
  unfolding local_pres_def
  by (auto simp: touch_pair_without_lock_def free_ok_def split: free_pc.splits)

lemma free_cycles_step:
  assumes "touch_pair_without_lock K t l u = Local l' u'"
  shows "cycles_done l' = cycles_done l + (if pc l = NStoreB then 1 else 0)"
  using assms
  by (auto simp: touch_pair_without_lock_def cycles_done_def split: free_pc.splits if_splits)

lemma free_detects:
  assumes "pc l = NCheckB" "tmp l \<noteq> pair_b u"
  shows "touch_pair_without_lock K t l u = Local (l\<lparr>pc := NReturn, ret := 1\<rparr>) u"
  using assms by (simp add: touch_pair_without_lock_def)

lemma free_returned:
  "touch_pair_without_lock K t (l\<lparr>pc := NReturn, ret := r\<rparr>) u = Finished"
  by (simp add: touch_pair_without_lock_def)

lemma bonus_a_broke_fold:
  "fold (\<lambda>f broke. if ret (local_of f) = 1 then 1 else broke) ls b
     = (if (\<exists>f \<in> set ls. ret (local_of f) = 1) then 1 else b)"
  by (induction ls arbitrary: b) auto

lemma bonus_a_broke_eq:
  "bonus_a_broke ls = (if (\<exists>t<length ls. ret (local_of (ls ! t)) = 1) then 1 else 0)"
proof -
  have "(\<exists>f \<in> set ls. ret (local_of f) = 1) = (\<exists>t<length ls. ret (local_of (ls ! t)) = 1)"
    by (metis in_set_conv_nth)
  then show ?thesis unfolding bonus_a_broke_def bonus_a_broke_fold by simp
qed

lemma free_reachable_ok:
  assumes "run (touch_pair_without_lock K) es (pair_scenario W (pair_start NTest)) = Step (ls, u, s)"
    and "t < length ls"
  shows "free_ok K (local_of (ls ! t))"
proof -
  have "list_all (\<lambda>f. free_ok K (local_of f)) (fst (ls, u, s))"
    using free_local assms(1)
    by (rule local_pres_run)
      (simp add: pair_scenario_def spawn_def pair_start_def free_ok_def list_all_length)
  with assms(2) show ?thesis by (simp add: list_all_length)
qed

text \<open>
  Claim C10, as amended. In the unsynchronised pair scenario (w3
  \<open>touch_pair_without_lock\<close>), a worker that finds \<open>a != b\<close> in its check after its
  write-back returns 1 at once and makes no further step. A worker that has returned 1 has
  finished \<open>i < K\<close> iterations of its loop and has completed \<open>i + 1\<close>, so at most \<open>K\<close>,
  update cycles (one write-back of \<open>b\<close> each, and nothing else counts); a worker that has
  returned otherwise has returned 0 after all \<open>K\<close> iterations and cycles. After the joins
  \<open>broke\<close> is 1 exactly when some worker has returned 1, and 0 otherwise.
\<close>

theorem pair_violation_returns_early:
  "(run (touch_pair_without_lock K) es (pair_scenario W (pair_start NTest)) = Step (ls, u, s) \<longrightarrow>
      (\<forall>t l. t < length ls \<and> ls ! t = User l \<and> pc l = NReturn \<and> ret l = 1 \<longrightarrow>
          i l < K \<and> cycles_done l = i l + 1 \<and> cycles_done l \<le> K)
      \<and> (\<forall>t l. t < length ls \<and> ls ! t = User l \<and> pc l = NReturn \<and> ret l \<noteq> 1 \<longrightarrow>
          ret l = 0 \<and> i l = K \<and> cycles_done l = K))
   \<and> (pc l1 = NCheckB \<and> tmp l1 \<noteq> pair_b u1 \<longrightarrow>
        touch_pair_without_lock K t1 l1 u1 = Local (l1\<lparr>pc := NReturn, ret := 1\<rparr>) u1
        \<and> touch_pair_without_lock K t1 (l1\<lparr>pc := NReturn, ret := 1\<rparr>) u2 = Finished)
   \<and> (touch_pair_without_lock K t1 l1 u1 = Local l2 u2 \<longrightarrow>
        cycles_done l2 = cycles_done l1 + (if pc l1 = NStoreB then 1 else 0))
   \<and> bonus_a_broke ls1 = (if (\<exists>t<length ls1. ret (local_of (ls1 ! t)) = 1) then 1 else 0)"
proof -
  have A: "i l < K \<and> cycles_done l = i l + 1 \<and> cycles_done l \<le> K"
    if "run (touch_pair_without_lock K) es (pair_scenario W (pair_start NTest)) = Step (ls, u, s)"
      "t < length ls \<and> ls ! t = User l \<and> pc l = NReturn \<and> ret l = 1" for t l
    using free_reachable_ok[OF that(1), of t] that(2) by (simp add: free_ok_def cycles_done_def)
  have B: "ret l = 0 \<and> i l = K \<and> cycles_done l = K"
    if "run (touch_pair_without_lock K) es (pair_scenario W (pair_start NTest)) = Step (ls, u, s)"
      "t < length ls \<and> ls ! t = User l \<and> pc l = NReturn \<and> ret l \<noteq> 1" for t l
    using free_reachable_ok[OF that(1), of t] that(2) by (simp add: free_ok_def cycles_done_def)
  from A B free_detects[where l = l1 and u = u1 and K = K and t = t1]
    free_returned[where K = K and t = t1 and l = l1 and r = 1 and u = u2]
    free_cycles_step[where K = K and t = t1 and l = l1 and u = u1 and l' = l2 and u' = u2]
    bonus_a_broke_eq[of ls1]
  show ?thesis by blast
qed

text \<open>Witness for C10 as amended, and counterexample to C10 as stated: two workers, one
  iteration each. Worker 0 writes back \<open>a = b = 1\<close> and reads \<open>a\<close> for its check; worker 1
  then runs up to its write of \<open>b = 2\<close>; worker 0 reads \<open>b\<close>, finds \<open>1 != 2\<close> and returns 1.
  It has completed its one update cycle, which is not fewer than \<open>K = 1\<close>.\<close>

lemma detect_run_result:
  "run (touch_pair_without_lock 1) detect_run (pair_scenario 2 (pair_start NTest))
     = Step ([User \<lparr>pc = NReturn, i = 0, tmp = 1, ta = 1, tb = 1, ret = 1\<rparr>,
              User \<lparr>pc = NReturn, i = 1, tmp = 2, ta = 2, tb = 2, ret = 0\<rparr>],
             \<lparr>pair_a = 2, pair_b = 2, lock = None\<rparr>, semc_init 0)"
  by (simp add: detect_run_def pair_scenario_def spawn_def pair_start_def semc_init_def
      numeral_eq_Suc thread_step_def touch_pair_without_lock_def sched_yield_def)

theorem pair_violation_returns_early_witness:
  "run (touch_pair_without_lock 1) detect_run (pair_scenario 2 (pair_start NTest))
     = Step ([User \<lparr>pc = NReturn, i = 0, tmp = 1, ta = 1, tb = 1, ret = 1\<rparr>,
              User \<lparr>pc = NReturn, i = 1, tmp = 2, ta = 2, tb = 2, ret = 0\<rparr>],
             \<lparr>pair_a = 2, pair_b = 2, lock = None\<rparr>, semc_init 0)
   \<and> i \<lparr>pc = NReturn, i = 0, tmp = 1, ta = 1, tb = 1, ret = 1\<rparr> < (1::nat)
   \<and> cycles_done \<lparr>pc = NReturn, i = 0, tmp = 1, ta = 1, tb = 1, ret = (1::nat)\<rparr> \<le> 1
   \<and> i \<lparr>pc = NReturn, i = 1, tmp = 2, ta = 2, tb = 2, ret = 0\<rparr> = (1::nat)
   \<and> touch_pair_without_lock 1 0 \<lparr>pc = NCheckB, i = 0, tmp = 1, ta = 1, tb = 1, ret = 0\<rparr>
        \<lparr>pair_a = 2, pair_b = 2, lock = None\<rparr>
      = Local \<lparr>pc = NReturn, i = 0, tmp = 1, ta = 1, tb = 1, ret = 1\<rparr> \<lparr>pair_a = 2, pair_b = 2, lock = None\<rparr>
   \<and> bonus_a_broke [User \<lparr>pc = NReturn, i = 0, tmp = 1, ta = 1, tb = 1, ret = 1\<rparr>,
              User \<lparr>pc = NReturn, i = 1, tmp = 2, ta = 2, tb = 2, ret = 0\<rparr>] = 1"
proof -
  let ?a = "\<lparr>pc = NReturn, i = 0, tmp = 1, ta = 1, tb = 1, ret = 1\<rparr>"
  let ?b = "\<lparr>pc = NReturn, i = 1, tmp = 2, ta = 2, tb = 2, ret = 0\<rparr>"
  let ?c = "\<lparr>pc = NCheckB, i = 0, tmp = 1, ta = 1, tb = 1, ret = 0\<rparr>"
  let ?u = "\<lparr>pair_a = 2, pair_b = 2, lock = None\<rparr>"
  let ?ls = "[User ?a, User ?b]"
  note T = pair_violation_returns_early[where K = 1 and es = detect_run and W = 2 and ls = ?ls
      and u = ?u and s = "semc_init 0" and ?l1.0 = ?c and ?u1.0 = ?u and ?t1.0 = 0 and ?ls1.0 = ?ls]
  note r = detect_run_result
  from T r have A: "\<forall>t l. t < length ?ls \<and> ?ls ! t = User l \<and> pc l = NReturn \<and> ret l = 1 \<longrightarrow>
          i l < 1 \<and> cycles_done l = i l + 1 \<and> cycles_done l \<le> 1"
    and B: "\<forall>t l. t < length ?ls \<and> ?ls ! t = User l \<and> pc l = NReturn \<and> ret l \<noteq> 1 \<longrightarrow>
          ret l = 0 \<and> i l = 1 \<and> cycles_done l = 1"
    by blast+
  have "(0::nat) < length ?ls \<and> ?ls ! 0 = User ?a \<and> pc ?a = NReturn \<and> ret ?a = 1" by simp
  with A have a: "i ?a < 1 \<and> cycles_done ?a \<le> 1" by blast
  have "(1::nat) < length ?ls \<and> ?ls ! 1 = User ?b \<and> pc ?b = NReturn \<and> ret ?b \<noteq> 1" by simp
  with B have b: "i ?b = 1" by blast
  have "pc ?c = NCheckB \<and> tmp ?c \<noteq> pair_b ?u" by simp
  with T have c: "touch_pair_without_lock 1 0 ?c ?u = Local (?c\<lparr>pc := NReturn, ret := 1\<rparr>) ?u"
    by blast
  from T have d: "bonus_a_broke ?ls = (if (\<exists>t<length ?ls. ret (local_of (?ls ! t)) = 1) then 1 else 0)"
    by blast
  have "\<exists>t<length ?ls. ret (local_of (?ls ! t)) = 1" by (rule exI[of _ 0]) simp
  with d have d': "bonus_a_broke ?ls = 1" by simp
  from r a b c d' show ?thesis by simp
qed

theorem pair_violation_in_last_cycle:
  "run (touch_pair_without_lock 1) detect_run (pair_scenario 2 (pair_start NTest))
     = Step ([User \<lparr>pc = NReturn, i = 0, tmp = 1, ta = 1, tb = 1, ret = 1\<rparr>,
              User \<lparr>pc = NReturn, i = 1, tmp = 2, ta = 2, tb = 2, ret = 0\<rparr>],
             \<lparr>pair_a = 2, pair_b = 2, lock = None\<rparr>, semc_init 0)
   \<and> ret \<lparr>pc = NReturn, i = 0, tmp = 1, ta = 1, tb = 1, ret = 1\<rparr> = (1::nat)
   \<and> \<not> cycles_done \<lparr>pc = NReturn, i = 0, tmp = 1, ta = 1, tb = 1, ret = 1\<rparr> < (1::nat)"
  using detect_run_result by (simp add: cycles_done_def)

end
